theory Spec2Isabelle
  imports Main "HOL-Library.Extended_Nat"
begin

section \<open>Data model (src/types/grid.ts)\<close>

text \<open>
  The algorithms work on JavaScript objects that are shared by reference: the grid is an
  array of arrays of \<^verbatim>\<open>Node\<close> objects, the start and end nodes are \<^verbatim>\<open>Node\<close> objects handed
  over separately, and \<^verbatim>\<open>previousNode\<close> is a reference to another \<^verbatim>\<open>Node\<close>. All of them are
  mutated in place. The model therefore has an explicit store: a \<open>ref\<close> is the identity of
  an object, the \<open>heap\<close> maps every reference to the current field values, and a grid is a
  matrix of references.

  Numbers: \<^verbatim>\<open>row\<close> and \<^verbatim>\<open>col\<close> are array indices (\<open>nat\<close>). The scores \<^verbatim>\<open>distance\<close>,
  \<^verbatim>\<open>gScore\<close>, \<^verbatim>\<open>fScore\<close>, \<^verbatim>\<open>hScore\<close> only ever hold \<^verbatim>\<open>Infinity\<close> or a hop count, so
  they are extended naturals; \<open>\<infinity> + 1 = \<infinity>\<close> and \<open>\<not> \<infinity> < \<infinity>\<close> as in JavaScript. (The
  interface in grid.ts does not declare the three A* scores; a score that was never assigned
  reads as \<^verbatim>\<open>undefined\<close>, which like \<open>\<infinity>\<close> is different from \<open>0\<close> and is never compared
  otherwise, see \<open>astar\<close> below.)
\<close>

type_synonym ref = nat

datatype NodeType =
  Empty | Wall | Start | End | Visited | Visited_dijkstra | Visited_astar
  | Path | Path_dijkstra | Path_astar

record Node =
  row :: nat
  col :: nat
  type :: NodeType
  distance :: enat
  gScore :: enat
  fScore :: enat
  hScore :: enat
  isVisited :: bool
  previousNode :: "ref option"

type_synonym heap = "ref \<Rightarrow> Node"

type_synonym grid = "ref list list"

text \<open>The value every algorithm returns: \<^verbatim>\<open>{ visitedNodes, path }\<close>.\<close>

record SearchResult =
  visitedNodes :: "ref list"
  path :: "ref list"

text \<open>
  Reading a property of \<^verbatim>\<open>undefined\<close> throws a \<^verbatim>\<open>TypeError\<close>; that is the only exception
  the algorithms can raise. An outcome is \<open>None\<close> when the call does not return,
  \<open>Some (Inl TypeError)\<close> when it throws, and \<open>Some (Inr x)\<close> when it returns \<open>x\<close>.
\<close>

datatype error = TypeError

type_synonym 'a outcome = "(error + 'a) option"


section \<open>Neighbour enumeration\<close>

text \<open>
  \<^verbatim>\<open>
  const { row, col } = node;
  if (row > 0) neighbors.push(grid[row - 1][col]); // up
  if (row < grid.length - 1) neighbors.push(grid[row + 1][col]); // down
  if (col > 0) neighbors.push(grid[row][col - 1]); // left
  if (col < grid[0].length - 1) neighbors.push(grid[row][col + 1]); // right
  \<close>
  The same four lines open \<^verbatim>\<open>getUnvisitedNeighbors\<close> (bfs.ts) and \<^verbatim>\<open>getValidNeighbors\<close>
  (dijkstra.ts, astar.ts). \<open>neighborCoords\<close> lists the coordinates that are read, in the
  order of the four pushes. \<^verbatim>\<open>grid.length - 1\<close> is \<open>-1\<close> for an empty grid, and no row is
  below it; truncating subtraction on \<open>nat\<close> gives \<open>0\<close> and agrees.
\<close>

definition neighborCoords :: "grid \<Rightarrow> Node \<Rightarrow> (nat \<times> nat) list" where
  "neighborCoords g node =
     (if row node > 0 then [(row node - 1, col node)] else []) @
     (if row node < length g - 1 then [(row node + 1, col node)] else []) @
     (if col node > 0 then [(row node, col node - 1)] else []) @
     (if col node < length (g ! 0) - 1 then [(row node, col node + 1)] else [])"

definition inGrid :: "grid \<Rightarrow> nat \<times> nat \<Rightarrow> bool" where
  "inGrid g p \<longleftrightarrow> fst p < length g \<and> snd p < length (g ! fst p)"

definition cell :: "grid \<Rightarrow> nat \<times> nat \<Rightarrow> ref" where
  "cell g p = g ! fst p ! snd p"

text \<open>
  A read outside the arrays yields \<^verbatim>\<open>undefined\<close>. \<^verbatim>\<open>grid[0].length\<close> on an empty grid and
  \<^verbatim>\<open>grid[r][c]\<close> with \<open>r\<close> out of range throw at once; \<^verbatim>\<open>grid[r][c]\<close> with only \<open>c\<close> out of
  range pushes \<^verbatim>\<open>undefined\<close> into \<^verbatim>\<open>neighbors\<close>, and the first use of that element
  (\<^verbatim>\<open>neighbor.type\<close> in bfs, \<^verbatim>\<open>neighbor.isVisited\<close> in the filter of getValidNeighbors) throws
  before anything is returned. In every case the caller ends with a \<^verbatim>\<open>TypeError\<close>.
\<close>

definition getUnvisitedNeighbors :: "grid \<Rightarrow> Node \<Rightarrow> error + ref list" where
  "getUnvisitedNeighbors g node =
     (if g = [] \<or> (\<exists>p \<in> set (neighborCoords g node). \<not> inGrid g p) then Inl TypeError
      else Inr (map (cell g) (neighborCoords g node)))"

text \<open>
  \<^verbatim>\<open>return neighbors.filter(neighbor => !neighbor.isVisited);\<close>
  (dijkstra.ts and astar.ts; the two files define the same function).
\<close>

definition getValidNeighbors :: "heap \<Rightarrow> grid \<Rightarrow> Node \<Rightarrow> error + ref list" where
  "getValidNeighbors h g node =
     (case getUnvisitedNeighbors g node of
        Inl err \<Rightarrow> Inl err
      | Inr neighbors \<Rightarrow> Inr (filter (\<lambda>neighbor. \<not> isVisited (h neighbor)) neighbors))"


section \<open>Path reconstruction\<close>

text \<open>
  \<^verbatim>\<open>
  let currentNode: Node | null = endNode;
  while (currentNode !== null) {
    path.unshift(currentNode);
    currentNode = currentNode.previousNode;
  }
  \<close>
  The loop follows references through the heap and does not end on a cyclic chain, so it is
  a partial function: \<open>None\<close> is "does not return".
\<close>

partial_function (option) unshiftChain :: "heap \<Rightarrow> ref option \<Rightarrow> ref list \<Rightarrow> ref list option" where
  "unshiftChain h currentNode collected =
     (case currentNode of
        None \<Rightarrow> Some collected
      | Some n \<Rightarrow> unshiftChain h (previousNode (h n)) (n # collected))"

text \<open>bfs.ts: the chain is returned as it is.\<close>

definition bfs_reconstructPath :: "heap \<Rightarrow> ref \<Rightarrow> ref list option" where
  "bfs_reconstructPath h endNode = unshiftChain h (Some endNode) []"

text \<open>
  dijkstra.ts:
  \<^verbatim>\<open>
  if (path.length > 0 && path[0].distance === 0) { return path; }
  return [];
  \<close>
\<close>

definition dijkstra_reconstructPath :: "heap \<Rightarrow> ref \<Rightarrow> ref list option" where
  "dijkstra_reconstructPath h endNode =
     map_option (\<lambda>path. if length path > 0 \<and> distance (h (hd path)) = 0 then path else [])
       (unshiftChain h (Some endNode) [])"

text \<open>astar.ts: the same with \<^verbatim>\<open>path[0].gScore === 0\<close>.\<close>

definition astar_reconstructPath :: "heap \<Rightarrow> ref \<Rightarrow> ref list option" where
  "astar_reconstructPath h endNode =
     map_option (\<lambda>path. if length path > 0 \<and> gScore (h (hd path)) = 0 then path else [])
       (unshiftChain h (Some endNode) [])"

declare unshiftChain.simps [code]


section \<open>Initialisation loop shared by the three algorithms\<close>

text \<open>
  \<^verbatim>\<open>
  for (let row = 0; row < grid.length; row++) {
    for (let col = 0; col < grid[0].length; col++) {
      const node = grid[row][col];
      ... assignments to fields of node ...
    }
  }
  \<close>
  The column bound is the length of row 0 for every row. A shorter row makes \<^verbatim>\<open>node\<close>
  undefined and the first assignment throws; the nodes of a longer row beyond that bound
  are not touched. \<open>f\<close> is the effect of the assignments on one node.
\<close>

definition initCoords :: "grid \<Rightarrow> (nat \<times> nat) list" where
  "initCoords g = concat (map (\<lambda>r. map (\<lambda>c. (r, c)) [0..<length (g ! 0)]) [0..<length g])"

definition forEachNode :: "(Node \<Rightarrow> Node) \<Rightarrow> heap \<Rightarrow> grid \<Rightarrow> error + heap" where
  "forEachNode f h g =
     (if \<exists>p \<in> set (initCoords g). \<not> inGrid g p then Inl TypeError
      else Inr (foldl (\<lambda>h' p. h'(cell g p := f (h' (cell g p)))) h (initCoords g)))"

section \<open>Breadth-first search (src/algorithms/bfs.ts)\<close>

text \<open>
  The body of the \<^verbatim>\<open>for (const neighbor of neighbors)\<close> loop:
  \<^verbatim>\<open>
  if (neighbor.type !== 'wall' && !neighbor.isVisited) {
    neighbor.isVisited = true;
    neighbor.previousNode = currentNode;
    queue.push(neighbor);
  }
  \<close>
\<close>

fun bfs_enqueue :: "ref \<Rightarrow> heap \<times> ref list \<Rightarrow> ref \<Rightarrow> heap \<times> ref list" where
  "bfs_enqueue currentNode (h, queue) neighbor =
     (if type (h neighbor) \<noteq> Wall \<and> \<not> isVisited (h neighbor)
      then (h(neighbor := (h neighbor)\<lparr>isVisited := True, previousNode := Some currentNode\<rparr>),
            queue @ [neighbor])
      else (h, queue))"

text \<open>
  One iteration of \<^verbatim>\<open>while (queue.length > 0)\<close>. The state is the heap, the queue and
  \<^verbatim>\<open>visitedNodes\<close>. \<open>Inl\<close> is the state for the next iteration; \<open>Inr\<close> is the outcome with
  which the function is left: the \<^verbatim>\<open>return\<close> inside the loop when the dequeued node has the
  coordinates of \<^verbatim>\<open>endNode\<close>, the \<^verbatim>\<open>return { visitedNodes, path: [] }\<close> after the loop when
  the queue is empty, or the exception.
\<close>

type_synonym bfs_state = "heap \<times> ref list \<times> ref list"

fun bfs_step :: "grid \<Rightarrow> ref \<Rightarrow> bfs_state \<Rightarrow> bfs_state + (heap \<times> SearchResult) outcome" where
  "bfs_step g endNode (h, [], visited) =
     Inr (Some (Inr (h, \<lparr>visitedNodes = visited, path = []\<rparr>)))"
| "bfs_step g endNode (h, currentNode # queue, visited) =
     (if row (h currentNode) = row (h endNode) \<and> col (h currentNode) = col (h endNode)
      then Inr (map_option (\<lambda>p. Inr (h, \<lparr>visitedNodes = visited @ [currentNode], path = p\<rparr>))
                  (bfs_reconstructPath h currentNode))
      else (case getUnvisitedNeighbors g (h currentNode) of
              Inl err \<Rightarrow> Inr (Some (Inl err))
            | Inr neighbors \<Rightarrow>
                (case foldl (bfs_enqueue currentNode) (h, queue) neighbors of
                   (h', queue') \<Rightarrow> Inl (h', queue', visited @ [currentNode]))))"

text \<open>
  Every enqueued neighbour is a node of the grid whose flag goes from unvisited to visited,
  and every iteration dequeues one node, so the number of unvisited grid nodes plus the
  length of the queue decreases.
\<close>

definition bfs_measure :: "grid \<Rightarrow> bfs_state \<Rightarrow> nat" where
  "bfs_measure g st =
     (case st of (h, queue, visited) \<Rightarrow>
        card {x \<in> set (concat g). \<not> isVisited (h x)} + length queue)"

lemma getUnvisitedNeighbors_subset:
  "getUnvisitedNeighbors g node = Inr ns \<Longrightarrow> set ns \<subseteq> set (concat g)"
proof -
  assume a: "getUnvisitedNeighbors g node = Inr ns"
  have "cell g p \<in> set (concat g)" if "inGrid g p" for p
    using that unfolding cell_def inGrid_def by (auto intro!: bexI[of _ "g ! fst p"])
  with a show ?thesis
    by (auto simp: getUnvisitedNeighbors_def split: if_splits)
qed

lemma card_unvisited_mark:
  assumes "n \<in> A" "finite A" "\<not> isVisited (h n)"
  shows "Suc (card {x \<in> A. \<not> isVisited ((h(n := (h n)\<lparr>isVisited := True, previousNode := p\<rparr>)) x)})
         = card {x \<in> A. \<not> isVisited (h x)}"
proof -
  let ?U = "{x \<in> A. \<not> isVisited (h x)}"
  have eq: "{x \<in> A. \<not> isVisited ((h(n := (h n)\<lparr>isVisited := True, previousNode := p\<rparr>)) x)} = ?U - {n}"
    by (rule set_eqI) simp
  have "n \<in> ?U" "finite ?U" using assms by simp_all
  then have "Suc (card (?U - {n})) = card ?U" by (rule card_Suc_Diff1[OF _ _, rotated])
  with eq show ?thesis by simp
qed

lemma bfs_enqueue_measure:
  assumes "neighbor \<in> set (concat g)" "bfs_enqueue c (h, q) neighbor = (h', q')"
  shows "card {x \<in> set (concat g). \<not> isVisited (h' x)} + length q' =
         card {x \<in> set (concat g). \<not> isVisited (h x)} + length q"
proof (cases "type (h neighbor) \<noteq> Wall \<and> \<not> isVisited (h neighbor)")
  case False
  with assms(2) show ?thesis by (simp split: if_splits)
next
  case True
  with assms(2) have h': "h' = h(neighbor := (h neighbor)\<lparr>isVisited := True, previousNode := Some c\<rparr>)"
    and q': "q' = q @ [neighbor]" by simp_all
  from card_unvisited_mark[of neighbor "set (concat g)" h "Some c"] assms(1) True
  show ?thesis unfolding h' q' by simp
qed

lemma bfs_enqueue_all_measure:
  "set ns \<subseteq> set (concat g) \<Longrightarrow> foldl (bfs_enqueue c) (h, q) ns = (h', q') \<Longrightarrow>
   card {x \<in> set (concat g). \<not> isVisited (h' x)} + length q' =
   card {x \<in> set (concat g). \<not> isVisited (h x)} + length q"
proof (induction ns arbitrary: h q)
  case Nil
  then show ?case by simp
next
  case (Cons n ns)
  obtain h1 q1 where s: "bfs_enqueue c (h, q) n = (h1, q1)" by (cases "bfs_enqueue c (h, q) n")
  from Cons.prems have "n \<in> set (concat g)" "set ns \<subseteq> set (concat g)" by auto
  with Cons.IH[of h1 q1] Cons.prems(2) s bfs_enqueue_measure[OF _ s, of g]
  show ?case by simp
qed

lemma bfs_step_measure:
  "bfs_step g e st = Inl st' \<Longrightarrow> bfs_measure g st' < bfs_measure g st"
proof (cases st)
  case (fields h q vs)
  assume s: "bfs_step g e st = Inl st'"
  show ?thesis
  proof (cases q)
    case Nil
    with s fields show ?thesis by simp
  next
    case (Cons c rest)
    from s fields Cons obtain ns h' q' where
      ns: "getUnvisitedNeighbors g (h c) = Inr ns" and
      f: "foldl (bfs_enqueue c) (h, rest) ns = (h', q')" and
      st': "st' = (h', q', vs @ [c])"
      by (auto split: if_splits sum.splits prod.splits)
    from bfs_enqueue_all_measure[OF getUnvisitedNeighbors_subset[OF ns] f]
    show ?thesis unfolding st' fields Cons bfs_measure_def by simp
  qed
qed

function bfs_loop :: "grid \<Rightarrow> ref \<Rightarrow> bfs_state \<Rightarrow> (heap \<times> SearchResult) outcome" where
  "bfs_loop g endNode st =
     (case bfs_step g endNode st of
        Inl st' \<Rightarrow> bfs_loop g endNode st'
      | Inr result \<Rightarrow> result)"
  by pat_completeness auto
termination
  by (relation "measure (\<lambda>(g, e, st). bfs_measure g st)") (auto simp: bfs_step_measure)


declare bfs_loop.simps [simp del]

text \<open>
  \<^verbatim>\<open>
  for ... { node.previousNode = null; node.isVisited = false; }
  startNode.isVisited = true;
  queue.push(startNode);
  while (queue.length > 0) { ... }
  \<close>
\<close>

definition bfs :: "heap \<Rightarrow> grid \<Rightarrow> ref \<Rightarrow> ref \<Rightarrow> (heap \<times> SearchResult) outcome" where
  "bfs h g startNode endNode =
     (case forEachNode (\<lambda>node. node\<lparr>previousNode := None, isVisited := False\<rparr>) h g of
        Inl err \<Rightarrow> Some (Inl err)
      | Inr h1 \<Rightarrow>
          bfs_loop g endNode
            (h1(startNode := (h1 startNode)\<lparr>isVisited := True\<rparr>), [startNode], []))"


section \<open>Dijkstra (src/algorithms/dijkstra.ts)\<close>

text \<open>
  The body of the loop in \<^verbatim>\<open>updateUnvisitedNeighbors\<close>:
  \<^verbatim>\<open>
  if (neighbor.type === 'wall') continue;
  const tentativeDistance = node.distance + 1;
  if (tentativeDistance < neighbor.distance) {
    neighbor.distance = tentativeDistance;
    neighbor.previousNode = node;
    if (!queue.includes(neighbor)) { queue.push(neighbor); }
  }
  \<close>
\<close>

fun updateNeighbor :: "ref \<Rightarrow> heap \<times> ref list \<Rightarrow> ref \<Rightarrow> heap \<times> ref list" where
  "updateNeighbor node (h, queue) neighbor =
     (if type (h neighbor) = Wall then (h, queue)
      else (let tentativeDistance = distance (h node) + 1 in
        if tentativeDistance < distance (h neighbor)
        then (h(neighbor := (h neighbor)\<lparr>distance := tentativeDistance, previousNode := Some node\<rparr>),
              if neighbor \<in> set queue then queue else queue @ [neighbor])
        else (h, queue)))"

definition updateUnvisitedNeighbors ::
  "heap \<Rightarrow> grid \<Rightarrow> ref \<Rightarrow> ref list \<Rightarrow> error + heap \<times> ref list" where
  "updateUnvisitedNeighbors h g node queue =
     (case getValidNeighbors h g (h node) of
        Inl err \<Rightarrow> Inl err
      | Inr neighbors \<Rightarrow> Inr (foldl (updateNeighbor node) (h, queue) neighbors))"

text \<open>
  One iteration of the main loop:
  \<^verbatim>\<open>
  queue.sort((a, b) => a.distance - b.distance);
  const currentNode = queue.shift()!;
  if (currentNode.isVisited || currentNode.type === 'wall') continue;
  currentNode.isVisited = true;
  visitedNodes.push(currentNode);
  if (currentNode.row === endNode.row && currentNode.col === endNode.col) {
    const path = reconstructPath(currentNode);
    return { visitedNodes, path };
  }
  updateUnvisitedNeighbors(currentNode, grid, queue);
  \<close>
  \<^verbatim>\<open>Array.prototype.sort\<close> is stable (ECMAScript 2019), and the comparator orders by
  \<^verbatim>\<open>distance\<close> with two \<^verbatim>\<open>Infinity\<close> entries comparing equal (\<^verbatim>\<open>NaN\<close> counts as \<open>0\<close>); this
  is \<open>sort_key\<close>, the stable insertion sort of the list library, on extended naturals.
\<close>

type_synonym dijkstra_state = "heap \<times> ref list \<times> ref list"

definition dijkstra_step ::
  "grid \<Rightarrow> ref \<Rightarrow> dijkstra_state \<Rightarrow> dijkstra_state + (heap \<times> SearchResult) outcome" where
  "dijkstra_step g endNode st =
     (case st of (h, queue, visited) \<Rightarrow>
      if queue = [] then Inr (Some (Inr (h, \<lparr>visitedNodes = visited, path = []\<rparr>)))
      else
        (let sorted = sort_key (\<lambda>n. distance (h n)) queue;
             currentNode = hd sorted;
             queue1 = tl sorted
         in if isVisited (h currentNode) \<or> type (h currentNode) = Wall
            then Inl (h, queue1, visited)
            else
              (let h1 = h(currentNode := (h currentNode)\<lparr>isVisited := True\<rparr>);
                   visited1 = visited @ [currentNode]
               in if row (h1 currentNode) = row (h1 endNode) \<and> col (h1 currentNode) = col (h1 endNode)
                  then Inr (map_option (\<lambda>p. Inr (h1, \<lparr>visitedNodes = visited1, path = p\<rparr>))
                              (dijkstra_reconstructPath h1 currentNode))
                  else (case updateUnvisitedNeighbors h1 g currentNode queue1 of
                          Inl err \<Rightarrow> Inr (Some (Inl err))
                        | Inr (h2, queue2) \<Rightarrow> Inl (h2, queue2, visited1)))))"

text \<open>
  Termination: an iteration that finalises a node lowers the number of unvisited nodes among
  the grid and the queue; an iteration that skips its node leaves that number and shortens
  the queue.
\<close>

definition dijkstra_unvisited :: "grid \<Rightarrow> dijkstra_state \<Rightarrow> nat" where
  "dijkstra_unvisited g st =
     (case st of (h, queue, visited) \<Rightarrow>
        card {x \<in> set (concat g) \<union> set queue. \<not> isVisited (h x)})"

lemma updateNeighbor_frame:
  assumes "updateNeighbor c (h, q) n = (h', q')"
  shows "isVisited (h' x) = isVisited (h x)" "set q' \<subseteq> set q \<union> {n}" "set q \<subseteq> set q'"
  using assms by (auto simp: Let_def split: if_splits)

lemma updateNeighbor_all_frame:
  assumes "foldl (updateNeighbor c) (h, q) ns = (h', q')"
  shows "isVisited (h' x) = isVisited (h x) \<and> set q' \<subseteq> set q \<union> set ns \<and> set q \<subseteq> set q'"
  using assms
proof (induction ns arbitrary: h q)
  case Nil
  then show ?case by simp
next
  case (Cons n ns)
  obtain h1 q1 where s: "updateNeighbor c (h, q) n = (h1, q1)" by (cases "updateNeighbor c (h, q) n")
  from Cons.prems s have "foldl (updateNeighbor c) (h1, q1) ns = (h', q')" by simp
  from Cons.IH[OF this] updateNeighbor_frame(1)[OF s, of x] updateNeighbor_frame(2,3)[OF s]
  show ?case by auto
qed

lemma getValidNeighbors_subset:
  "getValidNeighbors h g node = Inr ns \<Longrightarrow> set ns \<subseteq> set (concat g)"
  using getUnvisitedNeighbors_subset[of g node]
  by (auto simp: getValidNeighbors_def split: sum.splits)

lemma dijkstra_step_measure:
  assumes "dijkstra_step g e st = Inl st'"
  shows "dijkstra_unvisited g st' < dijkstra_unvisited g st \<or>
         (dijkstra_unvisited g st' = dijkstra_unvisited g st \<and>
          length (fst (snd st')) < length (fst (snd st)))"
proof (cases st)
  case (fields h q vs)
  let ?s = "sort_key (\<lambda>n. distance (h n)) q"
  let ?c = "hd ?s"
  let ?G = "set (concat g)"
  from assms fields have ne: "q \<noteq> []" by (auto simp: dijkstra_step_def)
  then have sne: "?s \<noteq> []" by (metis length_0_conv length_sort)
  have cin: "?c \<in> set q" using sne by (metis hd_in_set set_sort)
  have tl_sub: "set (tl ?s) \<subseteq> set q" by (metis list.set_sel(2) set_sort subsetI sne)
  have len: "length (tl ?s) < length q" using ne by (simp add: length_greater_0_conv)
  show ?thesis
  proof (cases "isVisited (h ?c) \<or> type (h ?c) = Wall")
    case True
    with assms fields ne have st': "st' = (h, tl ?s, vs)"
      by (auto simp: dijkstra_step_def Let_def)
    have "{x \<in> ?G \<union> set (tl ?s). \<not> isVisited (h x)} \<subseteq> {x \<in> ?G \<union> set q. \<not> isVisited (h x)}"
      using tl_sub by auto
    then have "dijkstra_unvisited g st' \<le> dijkstra_unvisited g st"
      unfolding st' fields dijkstra_unvisited_def by (simp add: card_mono)
    with len show ?thesis unfolding st' fields by auto
  next
    case False
    let ?h1 = "h(?c := (h ?c)\<lparr>isVisited := True\<rparr>)"
    from assms fields ne False obtain h2 q2 where
      u: "updateUnvisitedNeighbors ?h1 g ?c (tl ?s) = Inr (h2, q2)" and st': "st' = (h2, q2, vs @ [?c])"
      by (auto simp: dijkstra_step_def Let_def split: if_splits sum.splits)
    from u obtain ns where ns: "getValidNeighbors ?h1 g (?h1 ?c) = Inr ns"
      and f: "foldl (updateNeighbor ?c) (?h1, tl ?s) ns = (h2, q2)"
      by (auto simp: updateUnvisitedNeighbors_def split: sum.splits)
    have vis: "isVisited (h2 x) = isVisited (?h1 x)" for x
      using updateNeighbor_all_frame[OF f, of x] by simp
    have q2: "set q2 \<subseteq> set q \<union> ?G"
      using updateNeighbor_all_frame[OF f, of ?c] getValidNeighbors_subset[OF ns] tl_sub by auto
    have "{x \<in> ?G \<union> set q2. \<not> isVisited (h2 x)} \<subseteq> {x \<in> ?G \<union> set q. \<not> isVisited (h x)} - {?c}"
      using q2 by (auto simp: vis)
    moreover have "?c \<in> {x \<in> ?G \<union> set q. \<not> isVisited (h x)}" using cin False by simp
    moreover have fin: "finite {x \<in> ?G \<union> set q. \<not> isVisited (h x)}" by simp
    ultimately have "card {x \<in> ?G \<union> set q2. \<not> isVisited (h2 x)} < card {x \<in> ?G \<union> set q. \<not> isVisited (h x)}"
      by (meson card_Diff1_less card_mono finite_Diff le_less_trans)
    then show ?thesis unfolding st' fields dijkstra_unvisited_def by simp
  qed
qed

function dijkstra_loop :: "grid \<Rightarrow> ref \<Rightarrow> dijkstra_state \<Rightarrow> (heap \<times> SearchResult) outcome" where
  "dijkstra_loop g endNode st =
     (case dijkstra_step g endNode st of
        Inl st' \<Rightarrow> dijkstra_loop g endNode st'
      | Inr result \<Rightarrow> result)"
  by pat_completeness auto
termination
proof (relation "inv_image (less_than <*lex*> less_than)
         (\<lambda>(g, e, st). (dijkstra_unvisited g st, length (fst (snd st))))")
  show "wf (inv_image (less_than <*lex*> less_than)
         (\<lambda>(g, e, st). (dijkstra_unvisited g st, length (fst (snd st)))))"
    by (intro wf_inv_image wf_lex_prod wf_less_than)
next
  fix g endNode st st'
  assume "dijkstra_step g endNode st = Inl st'"
  from dijkstra_step_measure[OF this]
  show "((g, endNode, st'), (g, endNode, st)) \<in> inv_image (less_than <*lex*> less_than)
         (\<lambda>(g, e, st). (dijkstra_unvisited g st, length (fst (snd st))))"
    by auto
qed


declare dijkstra_loop.simps [simp del]

text \<open>
  \<^verbatim>\<open>
  for ... { node.distance = Infinity; node.previousNode = null; node.isVisited = false; }
  startNode.distance = 0;
  queue.push(startNode);
  \<close>
\<close>

definition dijkstra :: "heap \<Rightarrow> grid \<Rightarrow> ref \<Rightarrow> ref \<Rightarrow> (heap \<times> SearchResult) outcome" where
  "dijkstra h g startNode endNode =
     (case forEachNode (\<lambda>node. node\<lparr>distance := \<infinity>, previousNode := None, isVisited := False\<rparr>) h g of
        Inl err \<Rightarrow> Some (Inl err)
      | Inr h1 \<Rightarrow>
          dijkstra_loop g endNode
            (h1(startNode := (h1 startNode)\<lparr>distance := 0\<rparr>), [startNode], []))"


section \<open>A* (src/algorithms/astar.ts)\<close>

text \<open>\<^verbatim>\<open>Math.abs(nodeA.row - nodeB.row) + Math.abs(nodeA.col - nodeB.col)\<close>\<close>

definition manhattanDistance :: "Node \<Rightarrow> Node \<Rightarrow> nat" where
  "manhattanDistance nodeA nodeB =
     nat (\<bar>int (row nodeA) - int (row nodeB)\<bar> + \<bar>int (col nodeA) - int (col nodeB)\<bar>)"

text \<open>
  The body of the loop over the neighbours (\<^verbatim>\<open>closedSet\<close> is a JavaScript set of nodes):
  \<^verbatim>\<open>
  if (closedSet.has(neighbor) || neighbor.type === 'wall') continue;
  const tentativeGScore = currentNode.gScore + 1;
  if (tentativeGScore < neighbor.gScore) {
    neighbor.previousNode = currentNode;
    neighbor.gScore = tentativeGScore;
    neighbor.fScore = neighbor.gScore + neighbor.hScore;
    if (!openSet.includes(neighbor)) { openSet.push(neighbor); }
  }
  \<close>
\<close>

fun astar_updateNeighbor ::
  "ref \<Rightarrow> ref set \<Rightarrow> heap \<times> ref list \<Rightarrow> ref \<Rightarrow> heap \<times> ref list" where
  "astar_updateNeighbor currentNode closedSet (h, openSet) neighbor =
     (if neighbor \<in> closedSet \<or> type (h neighbor) = Wall then (h, openSet)
      else (let tentativeGScore = gScore (h currentNode) + 1 in
        if tentativeGScore < gScore (h neighbor)
        then (h(neighbor := (h neighbor)\<lparr>previousNode := Some currentNode,
                                           gScore := tentativeGScore,
                                           fScore := tentativeGScore + hScore (h neighbor)\<rparr>),
              if neighbor \<in> set openSet then openSet else openSet @ [neighbor])
        else (h, openSet)))"

text \<open>
  One iteration of the main loop:
  \<^verbatim>\<open>
  openSet.sort((a, b) => a.fScore - b.fScore);
  const currentNode = openSet.shift()!;
  if (closedSet.has(currentNode) || currentNode.type === 'wall') continue;
  currentNode.isVisited = true;
  visitedNodes.push(currentNode);
  closedSet.add(currentNode);
  if (currentNode.row === endNode.row && currentNode.col === endNode.col) {
    const path = reconstructPath(currentNode);
    return { visitedNodes, path };
  }
  const neighbors = getValidNeighbors(currentNode, grid);
  for (const neighbor of neighbors) { ... }
  \<close>
\<close>

type_synonym astar_state = "heap \<times> ref list \<times> ref set \<times> ref list"

definition astar_step ::
  "grid \<Rightarrow> ref \<Rightarrow> astar_state \<Rightarrow> astar_state + (heap \<times> SearchResult) outcome" where
  "astar_step g endNode st =
     (case st of (h, openSet, closedSet, visited) \<Rightarrow>
      if openSet = [] then Inr (Some (Inr (h, \<lparr>visitedNodes = visited, path = []\<rparr>)))
      else
        (let sorted = sort_key (\<lambda>n. fScore (h n)) openSet;
             currentNode = hd sorted;
             openSet1 = tl sorted
         in if currentNode \<in> closedSet \<or> type (h currentNode) = Wall
            then Inl (h, openSet1, closedSet, visited)
            else
              (let h1 = h(currentNode := (h currentNode)\<lparr>isVisited := True\<rparr>);
                   visited1 = visited @ [currentNode];
                   closedSet1 = insert currentNode closedSet
               in if row (h1 currentNode) = row (h1 endNode) \<and> col (h1 currentNode) = col (h1 endNode)
                  then Inr (map_option (\<lambda>p. Inr (h1, \<lparr>visitedNodes = visited1, path = p\<rparr>))
                              (astar_reconstructPath h1 currentNode))
                  else (case getValidNeighbors h1 g (h1 currentNode) of
                          Inl err \<Rightarrow> Inr (Some (Inl err))
                        | Inr neighbors \<Rightarrow>
                            (case foldl (astar_updateNeighbor currentNode closedSet1) (h1, openSet1) neighbors of
                               (h2, openSet2) \<Rightarrow> Inl (h2, openSet2, closedSet1, visited1))))))"

text \<open>
  Termination: as for Dijkstra, with the closed set in the place of the visited flag.
\<close>

definition astar_open :: "grid \<Rightarrow> astar_state \<Rightarrow> nat" where
  "astar_open g st =
     (case st of (h, openSet, closedSet, visited) \<Rightarrow>
        card {x \<in> set (concat g) \<union> set openSet. x \<notin> closedSet})"

lemma astar_updateNeighbor_frame:
  assumes "astar_updateNeighbor c cl (h, q) n = (h', q')"
  shows "set q' \<subseteq> set q \<union> {n}" "set q \<subseteq> set q'"
  using assms by (auto simp: Let_def split: if_splits)

lemma astar_updateNeighbor_all_frame:
  assumes "foldl (astar_updateNeighbor c cl) (h, q) ns = (h', q')"
  shows "set q' \<subseteq> set q \<union> set ns \<and> set q \<subseteq> set q'"
  using assms
proof (induction ns arbitrary: h q)
  case Nil
  then show ?case by simp
next
  case (Cons n ns)
  obtain h1 q1 where s: "astar_updateNeighbor c cl (h, q) n = (h1, q1)"
    by (cases "astar_updateNeighbor c cl (h, q) n")
  from Cons.prems s have "foldl (astar_updateNeighbor c cl) (h1, q1) ns = (h', q')" by simp
  from Cons.IH[OF this] astar_updateNeighbor_frame[OF s]
  show ?case by auto
qed

lemma astar_step_measure:
  assumes "astar_step g e st = Inl st'"
  shows "astar_open g st' < astar_open g st \<or>
         (astar_open g st' = astar_open g st \<and>
          length (fst (snd st')) < length (fst (snd st)))"
proof (cases st)
  case (fields h q cl vs)
  let ?s = "sort_key (\<lambda>n. fScore (h n)) q"
  let ?c = "hd ?s"
  let ?G = "set (concat g)"
  from assms fields have ne: "q \<noteq> []" by (auto simp: astar_step_def)
  then have sne: "?s \<noteq> []" by (metis length_0_conv length_sort)
  have cin: "?c \<in> set q" using sne by (metis hd_in_set set_sort)
  have tl_sub: "set (tl ?s) \<subseteq> set q" by (metis list.set_sel(2) set_sort subsetI sne)
  have len: "length (tl ?s) < length q" using ne by (simp add: length_greater_0_conv)
  show ?thesis
  proof (cases "?c \<in> cl \<or> type (h ?c) = Wall")
    case True
    with assms fields ne have st': "st' = (h, tl ?s, cl, vs)"
      by (auto simp: astar_step_def Let_def)
    have "{x \<in> ?G \<union> set (tl ?s). x \<notin> cl} \<subseteq> {x \<in> ?G \<union> set q. x \<notin> cl}"
      using tl_sub by auto
    then have "astar_open g st' \<le> astar_open g st"
      unfolding st' fields astar_open_def by (simp add: card_mono)
    with len show ?thesis unfolding st' fields by auto
  next
    case False
    let ?h1 = "h(?c := (h ?c)\<lparr>isVisited := True\<rparr>)"
    from assms fields ne False obtain ns h2 q2 where
      ns: "getValidNeighbors ?h1 g (?h1 ?c) = Inr ns" and
      f: "foldl (astar_updateNeighbor ?c (insert ?c cl)) (?h1, tl ?s) ns = (h2, q2)" and
      st': "st' = (h2, q2, insert ?c cl, vs @ [?c])"
      by (auto simp: astar_step_def Let_def split: if_splits sum.splits prod.splits)
    have q2: "set q2 \<subseteq> set q \<union> ?G"
      using astar_updateNeighbor_all_frame[OF f] getValidNeighbors_subset[OF ns] tl_sub by auto
    have "{x \<in> ?G \<union> set q2. x \<notin> insert ?c cl} \<subseteq> {x \<in> ?G \<union> set q. x \<notin> cl} - {?c}"
      using q2 by auto
    moreover have "?c \<in> {x \<in> ?G \<union> set q. x \<notin> cl}" using cin False by simp
    moreover have fin: "finite {x \<in> ?G \<union> set q. x \<notin> cl}" by simp
    ultimately have "card {x \<in> ?G \<union> set q2. x \<notin> insert ?c cl} < card {x \<in> ?G \<union> set q. x \<notin> cl}"
      by (meson card_Diff1_less card_mono finite_Diff le_less_trans)
    then show ?thesis unfolding st' fields astar_open_def by simp
  qed
qed

function astar_loop :: "grid \<Rightarrow> ref \<Rightarrow> astar_state \<Rightarrow> (heap \<times> SearchResult) outcome" where
  "astar_loop g endNode st =
     (case astar_step g endNode st of
        Inl st' \<Rightarrow> astar_loop g endNode st'
      | Inr result \<Rightarrow> result)"
  by pat_completeness auto
termination
proof (relation "inv_image (less_than <*lex*> less_than)
         (\<lambda>(g, e, st). (astar_open g st, length (fst (snd st))))")
  show "wf (inv_image (less_than <*lex*> less_than)
         (\<lambda>(g, e, st). (astar_open g st, length (fst (snd st)))))"
    by (intro wf_inv_image wf_lex_prod wf_less_than)
next
  fix g endNode st st'
  assume "astar_step g endNode st = Inl st'"
  from astar_step_measure[OF this]
  show "((g, endNode, st'), (g, endNode, st)) \<in> inv_image (less_than <*lex*> less_than)
         (\<lambda>(g, e, st). (astar_open g st, length (fst (snd st))))"
    by auto
qed


declare astar_loop.simps [simp del]

text \<open>
  \<^verbatim>\<open>
  for ... { node.gScore = Infinity; node.fScore = Infinity;
            node.hScore = manhattanDistance(node, endNode);
            node.previousNode = null; node.isVisited = false; }
  startNode.gScore = 0;
  startNode.fScore = startNode.hScore;
  openSet.push(startNode);
  \<close>
  A start node that is not one of the grid's nodes keeps the \<^verbatim>\<open>hScore\<close> it came with, and
  so its \<^verbatim>\<open>fScore\<close> is arbitrary; it is alone in \<^verbatim>\<open>openSet\<close> when it is taken out, so that
  value is never compared.
\<close>

definition astar :: "heap \<Rightarrow> grid \<Rightarrow> ref \<Rightarrow> ref \<Rightarrow> (heap \<times> SearchResult) outcome" where
  "astar h g startNode endNode =
     (case forEachNode (\<lambda>node. node\<lparr>gScore := \<infinity>, fScore := \<infinity>,
                                   hScore := enat (manhattanDistance node (h endNode)),
                                   previousNode := None, isVisited := False\<rparr>) h g of
        Inl err \<Rightarrow> Some (Inl err)
      | Inr h1 \<Rightarrow>
          astar_loop g endNode
            (h1(startNode := (h1 startNode)\<lparr>gScore := 0, fScore := hScore (h1 startNode)\<rparr>),
             [startNode], {}, []))"


section \<open>Dispatch on the algorithm kind (App.tsx)\<close>

text \<open>
  \<^verbatim>\<open>type AlgorithmType = 'dijkstra' | 'astar' | 'bfs' | 'dfs';\<close>
  \<^verbatim>\<open>
  const result = type === 'dijkstra'
    ? dijkstra(grid, startNode!, endNode!)
    : type === 'astar'
      ? astar(grid, startNode!, endNode!)
      : type === 'bfs'
        ? bfs(grid, startNode!, endNode!)
        : dfs(grid, startNode!, endNode!);
  \<close>
  (\<^verbatim>\<open>runAlgorithm\<close>; \<^verbatim>\<open>visualizeAlgorithm\<close> makes the same choice with a \<^verbatim>\<open>switch\<close>.) The App
  imports \<^verbatim>\<open>dfs\<close> from \<^verbatim>\<open>./algorithms/dfs\<close>, a file that is not among the sources, so
  \<open>dfs\<close> is a parameter here and nothing is assumed about it.
\<close>

datatype AlgorithmType = Dijkstra | Astar | Bfs | Dfs

type_synonym algorithm = "heap \<Rightarrow> grid \<Rightarrow> ref \<Rightarrow> ref \<Rightarrow> (heap \<times> SearchResult) outcome"

definition runAlgorithm :: "algorithm \<Rightarrow> AlgorithmType \<Rightarrow> algorithm" where
  "runAlgorithm dfs kind h g s e =
     (case kind of
        Dijkstra \<Rightarrow> dijkstra h g s e
      | Astar \<Rightarrow> astar h g s e
      | Bfs \<Rightarrow> bfs h g s e
      | Dfs \<Rightarrow> dfs h g s e)"


section \<open>Concrete stores for the examples\<close>

text \<open>
  The object literal of \<^verbatim>\<open>createInitialGrid\<close>, with the display tag as a parameter:
  \<^verbatim>\<open>{ row, col, type: 'empty', distance: Infinity, isVisited: false, previousNode: null }\<close>.
  The three A* scores are not assigned there.
\<close>

definition createNode :: "nat \<Rightarrow> nat \<Rightarrow> NodeType \<Rightarrow> Node" where
  "createNode r c t = \<lparr>row = r, col = c, type = t, distance = \<infinity>, gScore = \<infinity>, fScore = \<infinity>,
     hScore = \<infinity>, isVisited = False, previousNode = None\<rparr>"

text \<open>
  A store given by the list of its objects: reference \<open>i\<close> is the \<open>i\<close>-th object. (What
  the store holds beyond the list does not matter to any example.)
\<close>

definition heapOf :: "Node list \<Rightarrow> heap" where
  "heapOf ns = (\<lambda>i. if i < length ns then ns ! i else createNode 0 0 Empty)"


section \<open>Notions used to state the claims\<close>

text \<open>The fields that are not search scratch: position and display tag.\<close>

definition sameCell :: "Node \<Rightarrow> Node \<Rightarrow> bool" where
  "sameCell a b \<longleftrightarrow> row a = row b \<and> col a = col b \<and> type a = type b"
text \<open>
  A grid as the data model describes it: at least one row, all rows of the length of row 0.
\<close>

definition rectangular :: "grid \<Rightarrow> bool" where
  "rectangular g \<longleftrightarrow> g \<noteq> [] \<and> list_all (\<lambda>r. length r = length (g ! 0)) g"
text \<open>
  The claim's words for the neighbours of a position: the four candidates up, down, left,
  right in this order, of which those inside a \<open>rows \<times> cols\<close> grid are kept. (Integers,
  so that the candidate above row 0 or left of column 0 exists and is dropped.)
\<close>

definition inBoundsNeighbours :: "nat \<Rightarrow> nat \<Rightarrow> nat \<times> nat \<Rightarrow> (nat \<times> nat) list" where
  "inBoundsNeighbours rows cols p =
     map (\<lambda>(i, j). (nat i, nat j))
       (filter (\<lambda>(i, j). 0 \<le> i \<and> i < int rows \<and> 0 \<le> j \<and> j < int cols)
          [(int (fst p) - 1, int (snd p)), (int (fst p) + 1, int (snd p)),
           (int (fst p), int (snd p) - 1), (int (fst p), int (snd p) + 1)])"
text \<open>
  Following predecessor links backward: \<open>backward h n xs\<close> holds when \<open>xs\<close> lists \<open>n\<close>, its
  predecessor, the predecessor of that, and so on, and ends with a node that has no
  predecessor.
\<close>

inductive backward :: "heap \<Rightarrow> ref \<Rightarrow> ref list \<Rightarrow> bool" where
  root: "previousNode (h n) = None \<Longrightarrow> backward h n [n]"
| link: "previousNode (h n) = Some m \<Longrightarrow> backward h m xs \<Longrightarrow> backward h n (n # xs)"
text \<open>
  The positions of a sequence of nodes, and the layout of a grid: position and display tag
  of every node, row by row.
\<close>

definition positions :: "heap \<Rightarrow> ref list \<Rightarrow> (nat \<times> nat) list" where
  "positions h ns = map (\<lambda>n. (row (h n), col (h n))) ns"

definition layout :: "heap \<Rightarrow> grid \<Rightarrow> (nat \<times> nat \<times> NodeType) list list" where
  "layout h g = map (map (\<lambda>n. (row (h n), col (h n), type (h n)))) g"
text \<open>
  The paths the claims speak of: a non-empty sequence of positions of the grid, none of
  them a wall, each one step up, down, left or right of the one before.
\<close>

fun adjacentCells :: "nat \<times> nat \<Rightarrow> nat \<times> nat \<Rightarrow> bool" where
  "adjacentCells (r, c) (r', c') \<longleftrightarrow>
     (c = c' \<and> (r = Suc r' \<or> r' = Suc r)) \<or> (r = r' \<and> (c = Suc c' \<or> c' = Suc c))"

definition openCell :: "heap \<Rightarrow> grid \<Rightarrow> nat \<times> nat \<Rightarrow> bool" where
  "openCell h g p \<longleftrightarrow> inGrid g p \<and> type (h (cell g p)) \<noteq> Wall"

fun cellPath :: "heap \<Rightarrow> grid \<Rightarrow> (nat \<times> nat) list \<Rightarrow> bool" where
  "cellPath h g [] \<longleftrightarrow> False"
| "cellPath h g [p] \<longleftrightarrow> openCell h g p"
| "cellPath h g (p # q # ps) \<longleftrightarrow> openCell h g p \<and> adjacentCells p q \<and> cellPath h g (q # ps)"


section \<open>The frontier during a run\<close>

text \<open>
  The state at the head of the \<open>n\<close>-th iteration of a loop given by its step function
  (\<open>Inl\<close> the next state, \<open>Inr\<close> the outcome with which the loop is left), if the loop gets
  that far.
\<close>

fun afterIterations :: "nat \<Rightarrow> ('s \<Rightarrow> 's + 'r) \<Rightarrow> 's \<Rightarrow> 's option" where
  "afterIterations 0 step st = Some st"
| "afterIterations (Suc n) step st =
     (case step st of Inl st' \<Rightarrow> afterIterations n step st' | Inr r \<Rightarrow> None)"

text \<open>
  The state with which \<^verbatim>\<open>dijkstra\<close> and \<^verbatim>\<open>astar\<close> enter their loop: the heap after the
  initialisation loop and the assignments to the start node, the frontier holding the start
  node, nothing visited. These are the arguments of \<open>dijkstra_loop\<close> and \<open>astar_loop\<close> in the
  definitions of \<open>dijkstra\<close> and \<open>astar\<close> (lemmas \<open>dijkstra_from_start\<close>, \<open>astar_from_start\<close>).
\<close>

definition dijkstra_start :: "heap \<Rightarrow> grid \<Rightarrow> ref \<Rightarrow> error + dijkstra_state" where
  "dijkstra_start h g s =
     (case forEachNode (\<lambda>node. node\<lparr>distance := \<infinity>, previousNode := None, isVisited := False\<rparr>) h g of
        Inl err \<Rightarrow> Inl err
      | Inr h1 \<Rightarrow> Inr (h1(s := (h1 s)\<lparr>distance := 0\<rparr>), [s], []))"

definition astar_start :: "heap \<Rightarrow> grid \<Rightarrow> ref \<Rightarrow> ref \<Rightarrow> error + astar_state" where
  "astar_start h g s e =
     (case forEachNode (\<lambda>node. node\<lparr>gScore := \<infinity>, fScore := \<infinity>,
                                   hScore := enat (manhattanDistance node (h e)),
                                   previousNode := None, isVisited := False\<rparr>) h g of
        Inl err \<Rightarrow> Inl err
      | Inr h1 \<Rightarrow>
          Inr (h1(s := (h1 s)\<lparr>gScore := 0, fScore := hScore (h1 s)\<rparr>),
               [s], {}, []))"







section \<open>The run action of the App (App.tsx, \<^verbatim>\<open>visualizeAlgorithm\<close>)\<close>

text \<open>
  There are three variants of the App among the sources: the one with the comparison mode
  over four algorithms (\<^verbatim>\<open>unnamed/part_003\<close>), the one with \<^verbatim>\<open>'dijkstra' | 'astar' | 'compare'\<close>
  (\<^verbatim>\<open>unnamed/part_004\<close>), and the one that follows the A* code in \<^verbatim>\<open>astar.ts\<close>, which is the
  first without its comparison mode.

  The React state the run action reads, as far as the three variants share it: the grid, the
  start and end nodes (\<^verbatim>\<open>useState<Node | null>(null)\<close>), the running flag, the error message
  and the selected algorithm, whose type differs between the variants. The state holds
  references into the same object store as the algorithms use, so the store and the next
  unused reference are part of the state of the model.
\<close>

record 'a AppCore =
  objects :: heap
  fresh :: ref
  grid :: grid
  startNode :: "ref option"
  endNode :: "ref option"
  isRunning :: bool
  error :: "string option"
  algorithm :: 'a

text \<open>
  \<^verbatim>\<open>part_003\<close> adds
  \<^verbatim>\<open>
  const [comparisonMode, setComparisonMode] = useState<'single' | 'comparison'>('single');
  const [selectedAlgorithms, setSelectedAlgorithms] =
    useState<Record<AlgorithmType, boolean>>({ dijkstra: false, astar: false, bfs: false, dfs: false });
  \<close>
\<close>

datatype ComparisonMode = Single | Comparison

record App = "AlgorithmType AppCore" +
  comparisonMode :: ComparisonMode
  selectedAlgorithms :: "AlgorithmType \<Rightarrow> bool"

text \<open>\<^verbatim>\<open>type AlgorithmType = 'dijkstra' | 'astar' | 'compare';\<close> (\<^verbatim>\<open>part_004\<close>)\<close>

datatype AlgorithmOrCompare = OnlyDijkstra | OnlyAstar | Compare

text \<open>
  The copy of one node in \<^verbatim>\<open>newGrid\<close>, in \<^verbatim>\<open>part_003\<close> and in \<^verbatim>\<open>astar.ts\<close>:
  \<^verbatim>\<open>
  { ...node, isVisited: false, distance: Infinity, previousNode: null,
    type: ['visited', 'path'].includes(node.type) ? 'empty' : node.type }
  \<close>
\<close>

definition resetNode :: "Node \<Rightarrow> Node" where
  "resetNode node =
     node\<lparr>isVisited := False, distance := \<infinity>, previousNode := None,
          type := (if type node = Visited \<or> type node = Path then Empty else type node)\<rparr>"

text \<open>
  The copy of one node in \<^verbatim>\<open>newGrid\<close>, in \<^verbatim>\<open>part_004\<close>:
  \<^verbatim>\<open>
  { ...node, distance: Infinity, gScore: Infinity, fScore: Infinity, hScore: 0,
    isVisited: false, previousNode: null,
    type: ['visited', 'path', 'visited-dijkstra', 'visited-astar', 'path-dijkstra',
           'path-astar'].includes(node.type) ? 'empty' : node.type }
  \<close>
\<close>

definition resetNode_004 :: "Node \<Rightarrow> Node" where
  "resetNode_004 node =
     node\<lparr>distance := \<infinity>, gScore := \<infinity>, fScore := \<infinity>, hScore := 0,
          isVisited := False, previousNode := None,
          type := (if type node \<in> {Visited, Path, Visited_dijkstra, Visited_astar, Path_dijkstra, Path_astar}
                   then Empty else type node)\<rparr>"

text \<open>
  \<^verbatim>\<open>grid.map(row => row.map(node => ({ ... })))\<close> creates a new object for every node, row
  by row. \<open>f\<close> gives the fields of the copy from those of the original; for the plain copy
  \<^verbatim>\<open>({ ...node })\<close> it is the identity.
\<close>

fun copyRow :: "(Node \<Rightarrow> Node) \<Rightarrow> heap \<times> ref \<Rightarrow> ref list \<Rightarrow> (heap \<times> ref) \<times> ref list" where
  "copyRow f (h, n) [] = ((h, n), [])"
| "copyRow f (h, n) (x # xs) =
     (case copyRow f (h(n := f (h x)), Suc n) xs of (hn, ys) \<Rightarrow> (hn, n # ys))"

fun copyGrid :: "(Node \<Rightarrow> Node) \<Rightarrow> heap \<times> ref \<Rightarrow> grid \<Rightarrow> (heap \<times> ref) \<times> grid" where
  "copyGrid f hn [] = (hn, [])"
| "copyGrid f hn (r # rs) =
     (case copyRow f hn r of (hn1, r') \<Rightarrow>
        (case copyGrid f hn1 rs of (hn2, rs') \<Rightarrow> (hn2, r' # rs')))"

text \<open>
  What the model keeps of one call of \<^verbatim>\<open>visualizeAlgorithm\<close>. Either the call is refused at
  the guard, and \<open>Rejected\<close> holds the state it leaves; or algorithms are called, and \<open>Ran\<close>
  holds the calls that returned, in order, each with the grid it was given and its result,
  followed by the exception that ended the \<^verbatim>\<open>try\<close> block (\<open>Inl\<close>; the calls after it are not
  made) or else the object store after the last call (\<open>Inr\<close>). \<open>Ran None\<close>: a call does not
  return.

  Not in the model: the metrics, and the timed playback that follows a call. The playback
  passes to \<^verbatim>\<open>setGrid\<close> functions that copy the grid of the state and set the display tag
  of a copy at the position of a node of the result; it writes no object that exists when
  the algorithms are called, and the grids the algorithms are given are copies of the
  \<^verbatim>\<open>grid\<close> that the call of \<^verbatim>\<open>visualizeAlgorithm\<close> closed over. In \<^verbatim>\<open>part_003\<close> the playback of
  one algorithm comes before the call of the next; the model has the calls that are made if
  every playback completes.
\<close>

type_synonym calls = "(grid \<times> SearchResult) list \<times> (error + heap)"

datatype 's Run = Rejected 's | Ran "calls option"

text \<open>One call, of which nothing follows: its result, or its exception.\<close>

definition oneCall :: "grid \<Rightarrow> (heap \<times> SearchResult) outcome \<Rightarrow> calls option" where
  "oneCall g out =
     map_option (\<lambda>r. case r of Inl err \<Rightarrow> ([], Inl err)
                           | Inr (h, result) \<Rightarrow> ([(g, result)], Inr h)) out"

text \<open>
  The loop of the comparison mode of \<^verbatim>\<open>part_003\<close>:
  \<^verbatim>\<open>
  for (const algo of selectedAlgos) {
    const newGrid = grid.map(row => row.map(node => ({ ... })));
    setGrid(newGrid);
    const result = (() => { switch (algo) { case 'dijkstra': return dijkstra(newGrid, startNode, endNode);
                                            ... } })();
    ...
  }
  \<close>
  Every iteration copies the same \<^verbatim>\<open>grid\<close> and passes the same \<^verbatim>\<open>startNode\<close> and \<^verbatim>\<open>endNode\<close>.
  The \<^verbatim>\<open>switch\<close> makes the choice of \<open>runAlgorithm\<close>.
\<close>

fun callEach ::
  "algorithm \<Rightarrow> grid \<Rightarrow> ref \<Rightarrow> ref \<Rightarrow> heap \<times> ref \<Rightarrow> AlgorithmType list \<Rightarrow> calls option" where
  "callEach dfs g s e (h, n) [] = Some ([], Inr h)"
| "callEach dfs g s e (h, n) (algo # algos) =
     (case copyGrid resetNode (h, n) g of
        ((h1, n1), newGrid) \<Rightarrow>
          (case runAlgorithm dfs algo h1 newGrid s e of
             None \<Rightarrow> None
           | Some (Inl err) \<Rightarrow> Some ([], Inl err)
           | Some (Inr (h2, result)) \<Rightarrow>
               map_option (\<lambda>(results, last). ((newGrid, result) # results, last))
                 (callEach dfs g s e (h2, n1) algos)))"

text \<open>
  \<^verbatim>\<open>visualizeAlgorithm\<close> of \<^verbatim>\<open>part_003\<close>:
  \<^verbatim>\<open>
  if (!startNode || !endNode || isRunning) return;
  setIsRunning(true);
  setError(null);
  ...
  try {
    if (comparisonMode === 'single') {
      const newGrid = grid.map(row => row.map(node => ({ ... })));
      setGrid(newGrid);
      const result = (() => { switch (algorithm) { ... } })();
      ...
    } else {
      const selectedAlgos = Object.entries(selectedAlgorithms)
        .filter(([_, selected]) => selected)
        .map(([algo]) => algo as AlgorithmType);
      for (const algo of selectedAlgos) { ... }
    }
  } catch (err) { setError(...); } finally { setIsRunning(false); }
  \<close>
  The \<^verbatim>\<open>return\<close> at the guard comes before the \<^verbatim>\<open>try\<close> and before any setter, so the state
  is left as it is. The keys of \<^verbatim>\<open>selectedAlgorithms\<close> are in the order \<^verbatim>\<open>dijkstra\<close>,
  \<^verbatim>\<open>astar\<close>, \<^verbatim>\<open>bfs\<close>, \<^verbatim>\<open>dfs\<close> (every update spreads the previous object). The single mode does
  once what the loop of the comparison mode does for each algorithm. The App in \<^verbatim>\<open>astar.ts\<close>
  has the single mode only, with the same guard, copy and \<^verbatim>\<open>switch\<close>.
\<close>

definition visualizeAlgorithm :: "algorithm \<Rightarrow> App \<Rightarrow> App Run" where
  "visualizeAlgorithm dfs app =
     (case startNode app of
        None \<Rightarrow> Rejected app
      | Some s \<Rightarrow>
          (case endNode app of
             None \<Rightarrow> Rejected app
           | Some e \<Rightarrow>
               if isRunning app then Rejected app
               else
                 (case comparisonMode app of
                    Single \<Rightarrow>
                      Ran (callEach dfs (grid app) s e (objects app, fresh app) [algorithm app])
                  | Comparison \<Rightarrow>
                      Ran (callEach dfs (grid app) s e (objects app, fresh app)
                             (filter (selectedAlgorithms app) [Dijkstra, Astar, Bfs, Dfs])))))"

text \<open>
  \<^verbatim>\<open>visualizeAlgorithm\<close> of \<^verbatim>\<open>part_004\<close>:
  \<^verbatim>\<open>
  try {
    if (!startNode || !endNode) {
      setError('Please set both start and end points');
      return;
    }
    setIsRunning(true);
    setError(null);
    ...
    const newGrid = grid.map(row => row.map(node => ({ ... })));
    setGrid(newGrid);
    if (algorithm === 'compare') {
      const gridCopy1 = newGrid.map(row => row.map(node => ({ ...node })));
      const gridCopy2 = newGrid.map(row => row.map(node => ({ ...node })));
      const dijkstraResult = runAlgorithm('dijkstra', gridCopy1);
      const astarResult = runAlgorithm('astar', gridCopy2);
      ...
    } else {
      const result = runAlgorithm(algorithm, newGrid);
      ...
    }
  } catch (err) { setError(...); } finally { setIsRunning(false); }
  \<close>
  with
  \<^verbatim>\<open>
  const result = type === 'dijkstra'
    ? dijkstra(grid, startNode!, endNode!)
    : astar(grid, startNode!, endNode!);
  \<close>
  in \<^verbatim>\<open>runAlgorithm\<close>. The guard does not test the running flag, and it is inside the
  \<^verbatim>\<open>try\<close>: a refusal sets the error message, and \<^verbatim>\<open>finally\<close> resets the running flag.
\<close>

definition visualizeAlgorithm_004 :: "AlgorithmOrCompare AppCore \<Rightarrow> AlgorithmOrCompare AppCore Run" where
  "visualizeAlgorithm_004 app =
     (case startNode app of
        None \<Rightarrow> Rejected (app\<lparr>error := Some ''Please set both start and end points'', isRunning := False\<rparr>)
      | Some s \<Rightarrow>
          (case endNode app of
             None \<Rightarrow> Rejected (app\<lparr>error := Some ''Please set both start and end points'', isRunning := False\<rparr>)
           | Some e \<Rightarrow>
               (case copyGrid resetNode_004 (objects app, fresh app) (grid app) of
                  ((h1, n1), newGrid) \<Rightarrow>
                    (case algorithm app of
                       Compare \<Rightarrow>
                         (case copyGrid id (h1, n1) newGrid of
                            ((h2, n2), gridCopy1) \<Rightarrow>
                              (case copyGrid id (h2, n2) newGrid of
                                 ((h3, n3), gridCopy2) \<Rightarrow>
                                   Ran (case dijkstra h3 gridCopy1 s e of
                                          None \<Rightarrow> None
                                        | Some (Inl err) \<Rightarrow> Some ([], Inl err)
                                        | Some (Inr (h4, dijkstraResult)) \<Rightarrow>
                                            map_option (\<lambda>(results, last). ((gridCopy1, dijkstraResult) # results, last))
                                              (oneCall gridCopy2 (astar h4 gridCopy2 s e)))))
                     | OnlyDijkstra \<Rightarrow> Ran (oneCall newGrid (dijkstra h1 newGrid s e))
                     | OnlyAstar \<Rightarrow> Ran (oneCall newGrid (astar h1 newGrid s e))))))"


section \<open>The stores of the examples\<close>

text \<open>
  The calls the App makes: the grid handed to an algorithm is the fresh copy \<^verbatim>\<open>newGrid\<close>,
  the start and end nodes are the objects kept in the state since the user placed them. In
  \<open>firstRunStore\<close>, objects 0 to 2 are the copy of a grid of one row (start, empty, end),
  objects 3 and 4 are the start and end nodes of the state, at \<open>(0, 0)\<close> and \<open>(0, 2)\<close>, and
  objects 5 to 7 are the copy made for the next run.
\<close>

definition firstRunStore :: heap where
  "firstRunStore = heapOf
     [createNode 0 0 Start, createNode 0 1 Empty, createNode 0 2 End,
      createNode 0 0 Start, createNode 0 2 End,
      createNode 0 0 Start, createNode 0 1 Empty, createNode 0 2 End]"

text \<open>The same store after \<^verbatim>\<open>dijkstra\<close> has run on the first copy.\<close>

definition secondRunStore :: heap where
  "secondRunStore = heapOf
     [(createNode 0 0 Start)\<lparr>distance := 2, isVisited := True, previousNode := Some 1\<rparr>,
      (createNode 0 1 Empty)\<lparr>distance := 1, isVisited := True, previousNode := Some 3\<rparr>,
      (createNode 0 2 End)\<lparr>distance := 2, isVisited := True, previousNode := Some 1\<rparr>,
      (createNode 0 0 Start)\<lparr>distance := 0, isVisited := True\<rparr>, createNode 0 2 End,
      createNode 0 0 Start, createNode 0 1 Empty, createNode 0 2 End]"

text \<open>
  A store as it is after a first run from \<open>(0, 0)\<close> when the user has then put the start on
  the cell \<open>(0, 1)\<close>: the start node of the state (object 1) is the node of the earlier grid
  at that cell, with the flag and the predecessor link the first run gave it; object 0 is
  its predecessor, the start of the first run; object 2 is the end node; objects 3 to 5 are
  the copy of the grid for the new run.
\<close>

definition movedStartStore :: heap where
  "movedStartStore = heapOf
     [(createNode 0 0 Empty)\<lparr>isVisited := True\<rparr>,
      (createNode 0 1 Path)\<lparr>isVisited := True, previousNode := Some 0\<rparr>,
      createNode 0 2 End,
      createNode 0 0 Empty, createNode 0 1 Start, createNode 0 2 End]"





text \<open>
  The state of the App of \<^verbatim>\<open>part_003\<close> when the user has put the start on the cell
  \<open>(0, 0)\<close> of a grid of one row and two columns and then the end on the same cell.
  \<^verbatim>\<open>handleNodeClick\<close> takes \<^verbatim>\<open>grid[row][col]\<close> as the start or end node and replaces the
  grid by a copy in which the cell has the new tag: the start node (object 2) is the node
  of the first grid, tagged \<^verbatim>\<open>empty\<close>; the end node (object 3) is the node of the second,
  tagged \<^verbatim>\<open>start\<close>; the grid of the state is the third (objects 0 and 1), where the cell is
  tagged \<^verbatim>\<open>end\<close>.
\<close>

definition startOnEndApp :: App where
  "startOnEndApp =
     \<lparr>objects = heapOf [createNode 0 0 End, createNode 0 1 Empty, createNode 0 0 Empty, createNode 0 0 Start],
      fresh = 4, grid = [[0, 1]], startNode = Some 2, endNode = Some 3, isRunning = False,
      error = None, algorithm = Bfs, comparisonMode = Single, selectedAlgorithms = (\<lambda>a. False)\<rparr>"

text \<open>
  The same in the App of \<^verbatim>\<open>part_004\<close>, whose \<^verbatim>\<open>handleNodeClick\<close> takes the node of the
  copy it installs: the start node (object 2) is the node of the grid installed by the first
  click, tagged \<^verbatim>\<open>start\<close>; the end node is object 0, the node of the grid of the state.
\<close>

definition startOnEndApp_004 :: "AlgorithmOrCompare AppCore" where
  "startOnEndApp_004 =
     \<lparr>objects = heapOf [createNode 0 0 End, createNode 0 1 Empty, createNode 0 0 Start],
      fresh = 3, grid = [[0, 1]], startNode = Some 2, endNode = Some 0, isRunning = False,
      error = None, algorithm = OnlyDijkstra\<rparr>"


section \<open>Reasoning about the loops\<close>

subsection \<open>Invariant rule for each loop\<close>

lemma bfs_loop_rule:
  assumes init: "I st" and step: "\<And>st st'. I st \<Longrightarrow> bfs_step g e st = Inl st' \<Longrightarrow> I st'"
  shows "\<exists>st'. I st' \<and> bfs_step g e st' = Inr (bfs_loop g e st)"
proof -
  have "g' = g \<Longrightarrow> e' = e \<Longrightarrow> I st \<Longrightarrow>
        \<exists>st'. I st' \<and> bfs_step g' e' st' = Inr (bfs_loop g' e' st)" for g' e'
  proof (induction g' e' st rule: bfs_loop.induct)
    case (1 g' e' st)
    show ?case
    proof (cases "bfs_step g' e' st")
      case (Inl st')
      have "I st'" using step[OF "1.prems"(3)] Inl "1.prems"(1,2) by simp
      from "1.IH"[OF Inl "1.prems"(1,2) this] obtain st'' where
        a: "I st''" and b: "bfs_step g' e' st'' = Inr (bfs_loop g' e' st')"
        by (elim exE conjE)
      have c: "bfs_loop g' e' st = bfs_loop g' e' st'"
        by (subst bfs_loop.simps) (simp only: Inl sum.case)
      show ?thesis unfolding c using a b by (intro exI[of _ st''] conjI)
    next
      case (Inr r)
      have c: "bfs_loop g' e' st = r"
        by (subst bfs_loop.simps) (simp only: Inr sum.case)
      show ?thesis unfolding c using Inr "1.prems"(3) by (intro exI[of _ st] conjI)
    qed
  qed
  from this[OF refl refl init] show ?thesis .
qed

lemma dijkstra_loop_rule:
  assumes init: "I st" and step: "\<And>st st'. I st \<Longrightarrow> dijkstra_step g e st = Inl st' \<Longrightarrow> I st'"
  shows "\<exists>st'. I st' \<and> dijkstra_step g e st' = Inr (dijkstra_loop g e st)"
proof -
  have "g' = g \<Longrightarrow> e' = e \<Longrightarrow> I st \<Longrightarrow>
        \<exists>st'. I st' \<and> dijkstra_step g' e' st' = Inr (dijkstra_loop g' e' st)" for g' e'
  proof (induction g' e' st rule: dijkstra_loop.induct)
    case (1 g' e' st)
    show ?case
    proof (cases "dijkstra_step g' e' st")
      case (Inl st')
      have "I st'" using step[OF "1.prems"(3)] Inl "1.prems"(1,2) by simp
      from "1.IH"[OF Inl "1.prems"(1,2) this] obtain st'' where
        a: "I st''" and b: "dijkstra_step g' e' st'' = Inr (dijkstra_loop g' e' st')"
        by (elim exE conjE)
      have c: "dijkstra_loop g' e' st = dijkstra_loop g' e' st'"
        by (subst dijkstra_loop.simps) (simp only: Inl sum.case)
      show ?thesis unfolding c using a b by (intro exI[of _ st''] conjI)
    next
      case (Inr r)
      have c: "dijkstra_loop g' e' st = r"
        by (subst dijkstra_loop.simps) (simp only: Inr sum.case)
      show ?thesis unfolding c using Inr "1.prems"(3) by (intro exI[of _ st] conjI)
    qed
  qed
  from this[OF refl refl init] show ?thesis .
qed

lemma astar_loop_rule:
  assumes init: "I st" and step: "\<And>st st'. I st \<Longrightarrow> astar_step g e st = Inl st' \<Longrightarrow> I st'"
  shows "\<exists>st'. I st' \<and> astar_step g e st' = Inr (astar_loop g e st)"
proof -
  have "g' = g \<Longrightarrow> e' = e \<Longrightarrow> I st \<Longrightarrow>
        \<exists>st'. I st' \<and> astar_step g' e' st' = Inr (astar_loop g' e' st)" for g' e'
  proof (induction g' e' st rule: astar_loop.induct)
    case (1 g' e' st)
    show ?case
    proof (cases "astar_step g' e' st")
      case (Inl st')
      have "I st'" using step[OF "1.prems"(3)] Inl "1.prems"(1,2) by simp
      from "1.IH"[OF Inl "1.prems"(1,2) this] obtain st'' where
        a: "I st''" and b: "astar_step g' e' st'' = Inr (astar_loop g' e' st')"
        by (elim exE conjE)
      have c: "astar_loop g' e' st = astar_loop g' e' st'"
        by (subst astar_loop.simps) (simp only: Inl sum.case)
      show ?thesis unfolding c using a b by (intro exI[of _ st''] conjI)
    next
      case (Inr r)
      have c: "astar_loop g' e' st = r"
        by (subst astar_loop.simps) (simp only: Inr sum.case)
      show ?thesis unfolding c using Inr "1.prems"(3) by (intro exI[of _ st] conjI)
    qed
  qed
  from this[OF refl refl init] show ?thesis .
qed

lemma bfs_loop_run:
  assumes "bfs_loop g e st = out" "I st"
    and "\<And>st st'. I st \<Longrightarrow> bfs_step g e st = Inl st' \<Longrightarrow> I st'"
  shows "\<exists>st'. I st' \<and> bfs_step g e st' = Inr out"
  using bfs_loop_rule[of I st g e] assms by blast

lemma dijkstra_loop_run:
  assumes "dijkstra_loop g e st = out" "I st"
    and "\<And>st st'. I st \<Longrightarrow> dijkstra_step g e st = Inl st' \<Longrightarrow> I st'"
  shows "\<exists>st'. I st' \<and> dijkstra_step g e st' = Inr out"
  using dijkstra_loop_rule[of I st g e] assms by blast

lemma astar_loop_run:
  assumes "astar_loop g e st = out" "I st"
    and "\<And>st st'. I st \<Longrightarrow> astar_step g e st = Inl st' \<Longrightarrow> I st'"
  shows "\<exists>st'. I st' \<and> astar_step g e st' = Inr out"
  using astar_loop_rule[of I st g e] assms by blast

subsection \<open>The cases of one iteration\<close>

lemma bfs_step_goal:
  "row (h c) = row (h e) \<and> col (h c) = col (h e) \<Longrightarrow>
   bfs_step g e (h, c # rest, vs) =
     Inr (map_option (\<lambda>p. Inr (h, \<lparr>visitedNodes = vs @ [c], path = p\<rparr>)) (bfs_reconstructPath h c))"
  by simp

lemma bfs_step_throw:
  "\<not> (row (h c) = row (h e) \<and> col (h c) = col (h e)) \<Longrightarrow>
   getUnvisitedNeighbors g (h c) = Inl err \<Longrightarrow>
   bfs_step g e (h, c # rest, vs) = Inr (Some (Inl err))"
  by simp

lemma bfs_step_expand:
  "\<not> (row (h c) = row (h e) \<and> col (h c) = col (h e)) \<Longrightarrow>
   getUnvisitedNeighbors g (h c) = Inr ns \<Longrightarrow>
   foldl (bfs_enqueue c) (h, rest) ns = (h', q') \<Longrightarrow>
   bfs_step g e (h, c # rest, vs) = Inl (h', q', vs @ [c])"
  by simp

lemma bfs_step_InlD:
  assumes "bfs_step g e (h, q, vs) = Inl (h', q', vs')"
  shows "\<exists>c rest ns. q = c # rest \<and>
    \<not> (row (h c) = row (h e) \<and> col (h c) = col (h e)) \<and>
    getUnvisitedNeighbors g (h c) = Inr ns \<and>
    foldl (bfs_enqueue c) (h, rest) ns = (h', q') \<and> vs' = vs @ [c]"
proof (cases q)
  case Nil
  with assms show ?thesis by simp
next
  case (Cons c rest)
  show ?thesis
  proof (cases "row (h c) = row (h e) \<and> col (h c) = col (h e)")
    case True
    from assms show ?thesis unfolding Cons bfs_step_goal[OF True] by simp
  next
    case ng: False
    show ?thesis
    proof (cases "getUnvisitedNeighbors g (h c)")
      case (Inl err)
      from assms show ?thesis unfolding Cons bfs_step_throw[OF ng Inl] by simp
    next
      case (Inr ns)
      obtain h2 q2 where f: "foldl (bfs_enqueue c) (h, rest) ns = (h2, q2)"
        by (cases "foldl (bfs_enqueue c) (h, rest) ns")
      from assms have "h2 = h'" "q2 = q'" "vs' = vs @ [c]"
        unfolding Cons bfs_step_expand[OF ng Inr f] by simp_all
      with Cons ng Inr f show ?thesis by blast
    qed
  qed
qed

lemma bfs_step_InrD:
  assumes "bfs_step g e (h, q, vs) = Inr (Some (Inr (h', r)))"
  shows "h' = h \<and> ((q = [] \<and> r = \<lparr>visitedNodes = vs, path = []\<rparr>) \<or>
          (\<exists>c rest p. q = c # rest \<and> row (h c) = row (h e) \<and> col (h c) = col (h e) \<and>
             bfs_reconstructPath h c = Some p \<and> r = \<lparr>visitedNodes = vs @ [c], path = p\<rparr>))"
proof (cases q)
  case Nil
  with assms show ?thesis by auto
next
  case (Cons c rest)
  show ?thesis
  proof (cases "row (h c) = row (h e) \<and> col (h c) = col (h e)")
    case True
    from assms obtain p where "bfs_reconstructPath h c = Some p" "h' = h"
      "r = \<lparr>visitedNodes = vs @ [c], path = p\<rparr>"
      unfolding Cons bfs_step_goal[OF True] by auto
    with Cons True show ?thesis by blast
  next
    case ng: False
    show ?thesis
    proof (cases "getUnvisitedNeighbors g (h c)")
      case (Inl err)
      from assms show ?thesis unfolding Cons bfs_step_throw[OF ng Inl] by simp
    next
      case (Inr ns)
      obtain h2 q2 where f: "foldl (bfs_enqueue c) (h, rest) ns = (h2, q2)"
        by (cases "foldl (bfs_enqueue c) (h, rest) ns")
      from assms show ?thesis unfolding Cons bfs_step_expand[OF ng Inr f] by simp
    qed
  qed
qed

lemma mark_fields [simp]:
  "row ((h(c := (h c)\<lparr>isVisited := b\<rparr>)) x) = row (h x)"
  "col ((h(c := (h c)\<lparr>isVisited := b\<rparr>)) x) = col (h x)"
  "type ((h(c := (h c)\<lparr>isVisited := b\<rparr>)) x) = type (h x)"
  "distance ((h(c := (h c)\<lparr>isVisited := b\<rparr>)) x) = distance (h x)"
  "gScore ((h(c := (h c)\<lparr>isVisited := b\<rparr>)) x) = gScore (h x)"
  "fScore ((h(c := (h c)\<lparr>isVisited := b\<rparr>)) x) = fScore (h x)"
  "hScore ((h(c := (h c)\<lparr>isVisited := b\<rparr>)) x) = hScore (h x)"
  "previousNode ((h(c := (h c)\<lparr>isVisited := b\<rparr>)) x) = previousNode (h x)"
  by simp_all

lemma sort_key_Cons_ex: "q \<noteq> [] \<Longrightarrow> \<exists>c rest. sort_key f q = c # rest"
  by (metis length_0_conv length_sort neq_Nil_conv)

lemma neighborCoords_cong:
  "row n = row n' \<Longrightarrow> col n = col n' \<Longrightarrow> neighborCoords g n = neighborCoords g n'"
  by (simp add: neighborCoords_def)

lemma getUnvisitedNeighbors_cong:
  "row n = row n' \<Longrightarrow> col n = col n' \<Longrightarrow> getUnvisitedNeighbors g n = getUnvisitedNeighbors g n'"
  unfolding getUnvisitedNeighbors_def by (simp only: neighborCoords_cong[of n n'])

lemma getValidNeighbors_cong:
  "row n = row n' \<Longrightarrow> col n = col n' \<Longrightarrow> getValidNeighbors h g n = getValidNeighbors h g n'"
  unfolding getValidNeighbors_def by (simp only: getUnvisitedNeighbors_cong[of n n'])

lemma dijkstra_step_empty:
  "dijkstra_step g e (h, [], vs) = Inr (Some (Inr (h, \<lparr>visitedNodes = vs, path = []\<rparr>)))"
  by (simp add: dijkstra_step_def)

lemma dijkstra_step_skip:
  assumes "q \<noteq> []" "sort_key (\<lambda>n. distance (h n)) q = c # rest"
    "isVisited (h c) \<or> type (h c) = Wall"
  shows "dijkstra_step g e (h, q, vs) = Inl (h, rest, vs)"
  using assms by (simp add: dijkstra_step_def)

lemma dijkstra_step_goal:
  assumes "q \<noteq> []" "sort_key (\<lambda>n. distance (h n)) q = c # rest"
    "\<not> (isVisited (h c) \<or> type (h c) = Wall)"
    "row (h c) = row (h e) \<and> col (h c) = col (h e)"
  shows "dijkstra_step g e (h, q, vs) =
     Inr (map_option (\<lambda>p. Inr (h(c := (h c)\<lparr>isVisited := True\<rparr>), \<lparr>visitedNodes = vs @ [c], path = p\<rparr>))
            (dijkstra_reconstructPath (h(c := (h c)\<lparr>isVisited := True\<rparr>)) c))"
  using assms by (simp add: dijkstra_step_def Let_def del: fun_upd_apply)

lemma dijkstra_step_throw:
  assumes "q \<noteq> []" "sort_key (\<lambda>n. distance (h n)) q = c # rest"
    "\<not> (isVisited (h c) \<or> type (h c) = Wall)"
    "\<not> (row (h c) = row (h e) \<and> col (h c) = col (h e))"
    "getValidNeighbors (h(c := (h c)\<lparr>isVisited := True\<rparr>)) g (h c) = Inl err"
  shows "dijkstra_step g e (h, q, vs) = Inr (Some (Inl err))"
proof -
  have "getValidNeighbors (h(c := (h c)\<lparr>isVisited := True\<rparr>)) g ((h(c := (h c)\<lparr>isVisited := True\<rparr>)) c) = Inl err"
    using assms(5) getValidNeighbors_cong[of "(h(c := (h c)\<lparr>isVisited := True\<rparr>)) c" "h c" "h(c := (h c)\<lparr>isVisited := True\<rparr>)" g] by simp
  with assms(1-4) show ?thesis
    by (simp add: dijkstra_step_def Let_def updateUnvisitedNeighbors_def del: fun_upd_apply)
qed

lemma dijkstra_step_expand:
  assumes "q \<noteq> []" "sort_key (\<lambda>n. distance (h n)) q = c # rest"
    "\<not> (isVisited (h c) \<or> type (h c) = Wall)"
    "\<not> (row (h c) = row (h e) \<and> col (h c) = col (h e))"
    "getValidNeighbors (h(c := (h c)\<lparr>isVisited := True\<rparr>)) g (h c) = Inr ns"
    "foldl (updateNeighbor c) (h(c := (h c)\<lparr>isVisited := True\<rparr>), rest) ns = (h', q')"
  shows "dijkstra_step g e (h, q, vs) = Inl (h', q', vs @ [c])"
proof -
  have "getValidNeighbors (h(c := (h c)\<lparr>isVisited := True\<rparr>)) g ((h(c := (h c)\<lparr>isVisited := True\<rparr>)) c) = Inr ns"
    using assms(5) getValidNeighbors_cong[of "(h(c := (h c)\<lparr>isVisited := True\<rparr>)) c" "h c" "h(c := (h c)\<lparr>isVisited := True\<rparr>)" g] by simp
  with assms(1-4,6) show ?thesis
    by (simp add: dijkstra_step_def Let_def updateUnvisitedNeighbors_def del: fun_upd_apply)
qed

lemma dijkstra_step_InlD:
  assumes "dijkstra_step g e (h, q, vs) = Inl st'"
  shows "\<exists>c rest. q \<noteq> [] \<and> sort_key (\<lambda>n. distance (h n)) q = c # rest \<and>
     ((isVisited (h c) \<or> type (h c) = Wall) \<and> st' = (h, rest, vs) \<or>
      \<not> (isVisited (h c) \<or> type (h c) = Wall) \<and> \<not> (row (h c) = row (h e) \<and> col (h c) = col (h e)) \<and>
      (\<exists>ns h' q'. getValidNeighbors (h(c := (h c)\<lparr>isVisited := True\<rparr>)) g (h c) = Inr ns \<and>
          foldl (updateNeighbor c) (h(c := (h c)\<lparr>isVisited := True\<rparr>), rest) ns = (h', q') \<and> st' = (h', q', vs @ [c])))"
proof (cases "q = []")
  case True
  with assms show ?thesis by (simp add: dijkstra_step_empty)
next
  case ne: False
  from sort_key_Cons_ex[OF ne] obtain c rest where s: "sort_key (\<lambda>n. distance (h n)) q = c # rest" by blast
  show ?thesis
  proof (cases "isVisited (h c) \<or> type (h c) = Wall")
    case True
    from assms have "st' = (h, rest, vs)" unfolding dijkstra_step_skip[OF ne s True] by simp
    with ne s True show ?thesis by blast
  next
    case nskip: False
    show ?thesis
    proof (cases "row (h c) = row (h e) \<and> col (h c) = col (h e)")
      case True
      from assms show ?thesis unfolding dijkstra_step_goal[OF ne s nskip True] by simp
    next
      case ng: False
      show ?thesis
      proof (cases "getValidNeighbors (h(c := (h c)\<lparr>isVisited := True\<rparr>)) g (h c)")
        case (Inl err)
        from assms show ?thesis unfolding dijkstra_step_throw[OF ne s nskip ng Inl] by simp
      next
        case (Inr ns)
        obtain h2 q2 where f: "foldl (updateNeighbor c) (h(c := (h c)\<lparr>isVisited := True\<rparr>), rest) ns = (h2, q2)"
          by (cases "foldl (updateNeighbor c) (h(c := (h c)\<lparr>isVisited := True\<rparr>), rest) ns")
        from assms have "st' = (h2, q2, vs @ [c])"
          unfolding dijkstra_step_expand[OF ne s nskip ng Inr f] by simp
        with ne s nskip ng Inr f show ?thesis by blast
      qed
    qed
  qed
qed

lemma dijkstra_step_InrD:
  assumes "dijkstra_step g e (h, q, vs) = Inr (Some (Inr (h', r)))"
  shows "(q = [] \<and> h' = h \<and> r = \<lparr>visitedNodes = vs, path = []\<rparr>) \<or>
         (\<exists>c rest p. q \<noteq> [] \<and> sort_key (\<lambda>n. distance (h n)) q = c # rest \<and> \<not> (isVisited (h c) \<or> type (h c) = Wall) \<and>
             row (h c) = row (h e) \<and> col (h c) = col (h e) \<and> h' = h(c := (h c)\<lparr>isVisited := True\<rparr>) \<and>
             dijkstra_reconstructPath h' c = Some p \<and> r = \<lparr>visitedNodes = vs @ [c], path = p\<rparr>)"
proof (cases "q = []")
  case True
  with assms show ?thesis by (auto simp add: dijkstra_step_empty)
next
  case ne: False
  from sort_key_Cons_ex[OF ne] obtain c rest where s: "sort_key (\<lambda>n. distance (h n)) q = c # rest" by blast
  show ?thesis
  proof (cases "isVisited (h c) \<or> type (h c) = Wall")
    case True
    from assms show ?thesis unfolding dijkstra_step_skip[OF ne s True] by simp
  next
    case nskip: False
    show ?thesis
    proof (cases "row (h c) = row (h e) \<and> col (h c) = col (h e)")
      case True
      from assms obtain p where "dijkstra_reconstructPath (h(c := (h c)\<lparr>isVisited := True\<rparr>)) c = Some p" "h' = h(c := (h c)\<lparr>isVisited := True\<rparr>)"
        "r = \<lparr>visitedNodes = vs @ [c], path = p\<rparr>"
        unfolding dijkstra_step_goal[OF ne s nskip True] by auto
      with ne s nskip True show ?thesis by blast
    next
      case ng: False
      show ?thesis
      proof (cases "getValidNeighbors (h(c := (h c)\<lparr>isVisited := True\<rparr>)) g (h c)")
        case (Inl err)
        from assms show ?thesis unfolding dijkstra_step_throw[OF ne s nskip ng Inl] by simp
      next
        case (Inr ns)
        obtain h2 q2 where f: "foldl (updateNeighbor c) (h(c := (h c)\<lparr>isVisited := True\<rparr>), rest) ns = (h2, q2)"
          by (cases "foldl (updateNeighbor c) (h(c := (h c)\<lparr>isVisited := True\<rparr>), rest) ns")
        from assms show ?thesis unfolding dijkstra_step_expand[OF ne s nskip ng Inr f] by simp
      qed
    qed
  qed
qed

lemma astar_step_empty:
  "astar_step g e (h, [], cl, vs) = Inr (Some (Inr (h, \<lparr>visitedNodes = vs, path = []\<rparr>)))"
  by (simp add: astar_step_def)

lemma astar_step_skip:
  assumes "q \<noteq> []" "sort_key (\<lambda>n. fScore (h n)) q = c # rest"
    "c \<in> cl \<or> type (h c) = Wall"
  shows "astar_step g e (h, q, cl, vs) = Inl (h, rest, cl, vs)"
  using assms by (simp add: astar_step_def)

lemma astar_step_goal:
  assumes "q \<noteq> []" "sort_key (\<lambda>n. fScore (h n)) q = c # rest"
    "\<not> (c \<in> cl \<or> type (h c) = Wall)"
    "row (h c) = row (h e) \<and> col (h c) = col (h e)"
  shows "astar_step g e (h, q, cl, vs) =
     Inr (map_option (\<lambda>p. Inr (h(c := (h c)\<lparr>isVisited := True\<rparr>), \<lparr>visitedNodes = vs @ [c], path = p\<rparr>))
            (astar_reconstructPath (h(c := (h c)\<lparr>isVisited := True\<rparr>)) c))"
  using assms by (simp add: astar_step_def Let_def del: fun_upd_apply)

lemma astar_step_throw:
  assumes "q \<noteq> []" "sort_key (\<lambda>n. fScore (h n)) q = c # rest"
    "\<not> (c \<in> cl \<or> type (h c) = Wall)"
    "\<not> (row (h c) = row (h e) \<and> col (h c) = col (h e))"
    "getValidNeighbors (h(c := (h c)\<lparr>isVisited := True\<rparr>)) g (h c) = Inl err"
  shows "astar_step g e (h, q, cl, vs) = Inr (Some (Inl err))"
proof -
  have "getValidNeighbors (h(c := (h c)\<lparr>isVisited := True\<rparr>)) g ((h(c := (h c)\<lparr>isVisited := True\<rparr>)) c) = Inl err"
    using assms(5) getValidNeighbors_cong[of "(h(c := (h c)\<lparr>isVisited := True\<rparr>)) c" "h c" "h(c := (h c)\<lparr>isVisited := True\<rparr>)" g] by simp
  with assms(1-4) show ?thesis
    by (simp add: astar_step_def Let_def  del: fun_upd_apply)
qed

lemma astar_step_expand:
  assumes "q \<noteq> []" "sort_key (\<lambda>n. fScore (h n)) q = c # rest"
    "\<not> (c \<in> cl \<or> type (h c) = Wall)"
    "\<not> (row (h c) = row (h e) \<and> col (h c) = col (h e))"
    "getValidNeighbors (h(c := (h c)\<lparr>isVisited := True\<rparr>)) g (h c) = Inr ns"
    "foldl (astar_updateNeighbor c (insert c cl)) (h(c := (h c)\<lparr>isVisited := True\<rparr>), rest) ns = (h', q')"
  shows "astar_step g e (h, q, cl, vs) = Inl (h', q', insert c cl, vs @ [c])"
proof -
  have "getValidNeighbors (h(c := (h c)\<lparr>isVisited := True\<rparr>)) g ((h(c := (h c)\<lparr>isVisited := True\<rparr>)) c) = Inr ns"
    using assms(5) getValidNeighbors_cong[of "(h(c := (h c)\<lparr>isVisited := True\<rparr>)) c" "h c" "h(c := (h c)\<lparr>isVisited := True\<rparr>)" g] by simp
  with assms(1-4,6) show ?thesis
    by (simp add: astar_step_def Let_def  del: fun_upd_apply)
qed

lemma astar_step_InlD:
  assumes "astar_step g e (h, q, cl, vs) = Inl st'"
  shows "\<exists>c rest. q \<noteq> [] \<and> sort_key (\<lambda>n. fScore (h n)) q = c # rest \<and>
     ((c \<in> cl \<or> type (h c) = Wall) \<and> st' = (h, rest, cl, vs) \<or>
      \<not> (c \<in> cl \<or> type (h c) = Wall) \<and> \<not> (row (h c) = row (h e) \<and> col (h c) = col (h e)) \<and>
      (\<exists>ns h' q'. getValidNeighbors (h(c := (h c)\<lparr>isVisited := True\<rparr>)) g (h c) = Inr ns \<and>
          foldl (astar_updateNeighbor c (insert c cl)) (h(c := (h c)\<lparr>isVisited := True\<rparr>), rest) ns = (h', q') \<and> st' = (h', q', insert c cl, vs @ [c])))"
proof (cases "q = []")
  case True
  with assms show ?thesis by (simp add: astar_step_empty)
next
  case ne: False
  from sort_key_Cons_ex[OF ne] obtain c rest where s: "sort_key (\<lambda>n. fScore (h n)) q = c # rest" by blast
  show ?thesis
  proof (cases "c \<in> cl \<or> type (h c) = Wall")
    case True
    from assms have "st' = (h, rest, cl, vs)" unfolding astar_step_skip[OF ne s True] by simp
    with ne s True show ?thesis by blast
  next
    case nskip: False
    show ?thesis
    proof (cases "row (h c) = row (h e) \<and> col (h c) = col (h e)")
      case True
      from assms show ?thesis unfolding astar_step_goal[OF ne s nskip True] by simp
    next
      case ng: False
      show ?thesis
      proof (cases "getValidNeighbors (h(c := (h c)\<lparr>isVisited := True\<rparr>)) g (h c)")
        case (Inl err)
        from assms show ?thesis unfolding astar_step_throw[OF ne s nskip ng Inl] by simp
      next
        case (Inr ns)
        obtain h2 q2 where f: "foldl (astar_updateNeighbor c (insert c cl)) (h(c := (h c)\<lparr>isVisited := True\<rparr>), rest) ns = (h2, q2)"
          by (cases "foldl (astar_updateNeighbor c (insert c cl)) (h(c := (h c)\<lparr>isVisited := True\<rparr>), rest) ns")
        from assms have "st' = (h2, q2, insert c cl, vs @ [c])"
          unfolding astar_step_expand[OF ne s nskip ng Inr f] by simp
        with ne s nskip ng Inr f show ?thesis by blast
      qed
    qed
  qed
qed

lemma astar_step_InrD:
  assumes "astar_step g e (h, q, cl, vs) = Inr (Some (Inr (h', r)))"
  shows "(q = [] \<and> h' = h \<and> r = \<lparr>visitedNodes = vs, path = []\<rparr>) \<or>
         (\<exists>c rest p. q \<noteq> [] \<and> sort_key (\<lambda>n. fScore (h n)) q = c # rest \<and> \<not> (c \<in> cl \<or> type (h c) = Wall) \<and>
             row (h c) = row (h e) \<and> col (h c) = col (h e) \<and> h' = h(c := (h c)\<lparr>isVisited := True\<rparr>) \<and>
             astar_reconstructPath h' c = Some p \<and> r = \<lparr>visitedNodes = vs @ [c], path = p\<rparr>)"
proof (cases "q = []")
  case True
  with assms show ?thesis by (auto simp add: astar_step_empty)
next
  case ne: False
  from sort_key_Cons_ex[OF ne] obtain c rest where s: "sort_key (\<lambda>n. fScore (h n)) q = c # rest" by blast
  show ?thesis
  proof (cases "c \<in> cl \<or> type (h c) = Wall")
    case True
    from assms show ?thesis unfolding astar_step_skip[OF ne s True] by simp
  next
    case nskip: False
    show ?thesis
    proof (cases "row (h c) = row (h e) \<and> col (h c) = col (h e)")
      case True
      from assms obtain p where "astar_reconstructPath (h(c := (h c)\<lparr>isVisited := True\<rparr>)) c = Some p" "h' = h(c := (h c)\<lparr>isVisited := True\<rparr>)"
        "r = \<lparr>visitedNodes = vs @ [c], path = p\<rparr>"
        unfolding astar_step_goal[OF ne s nskip True] by auto
      with ne s nskip True show ?thesis by blast
    next
      case ng: False
      show ?thesis
      proof (cases "getValidNeighbors (h(c := (h c)\<lparr>isVisited := True\<rparr>)) g (h c)")
        case (Inl err)
        from assms show ?thesis unfolding astar_step_throw[OF ne s nskip ng Inl] by simp
      next
        case (Inr ns)
        obtain h2 q2 where f: "foldl (astar_updateNeighbor c (insert c cl)) (h(c := (h c)\<lparr>isVisited := True\<rparr>), rest) ns = (h2, q2)"
          by (cases "foldl (astar_updateNeighbor c (insert c cl)) (h(c := (h c)\<lparr>isVisited := True\<rparr>), rest) ns")
        from assms show ?thesis unfolding astar_step_expand[OF ne s nskip ng Inr f] by simp
      qed
    qed
  qed
qed

lemma bfs_unfold:
  assumes "bfs h g s e = Some (Inr (h', r))"
  obtains h1 where
    "forEachNode (\<lambda>node. node\<lparr>previousNode := None, isVisited := False\<rparr>) h g = Inr h1"
    "bfs_loop g e (h1(s := (h1 s)\<lparr>isVisited := True\<rparr>), [s], []) = Some (Inr (h', r))"
proof (cases "forEachNode (\<lambda>node. node\<lparr>previousNode := None, isVisited := False\<rparr>) h g")
  case (Inl a)
  with assms show ?thesis by (simp add: bfs_def)
next
  case (Inr h1)
  with assms that[OF Inr] show ?thesis by (simp add: bfs_def del: fun_upd_apply)
qed

lemma dijkstra_unfold:
  assumes "dijkstra h g s e = Some (Inr (h', r))"
  obtains h1 where
    "forEachNode (\<lambda>node. node\<lparr>distance := \<infinity>, previousNode := None, isVisited := False\<rparr>) h g = Inr h1"
    "dijkstra_loop g e (h1(s := (h1 s)\<lparr>distance := 0\<rparr>), [s], []) = Some (Inr (h', r))"
proof (cases "forEachNode (\<lambda>node. node\<lparr>distance := \<infinity>, previousNode := None, isVisited := False\<rparr>) h g")
  case (Inl a)
  with assms show ?thesis by (simp add: dijkstra_def)
next
  case (Inr h1)
  with assms that[OF Inr] show ?thesis by (simp add: dijkstra_def del: fun_upd_apply)
qed

lemma astar_unfold:
  assumes "astar h g s e = Some (Inr (h', r))"
  obtains h1 where
    "forEachNode (\<lambda>node. node\<lparr>gScore := \<infinity>, fScore := \<infinity>,
        hScore := enat (manhattanDistance node (h e)),
        previousNode := None, isVisited := False\<rparr>) h g = Inr h1"
    "astar_loop g e (h1(s := (h1 s)\<lparr>gScore := 0, fScore := hScore (h1 s)\<rparr>), [s], {}, []) = Some (Inr (h', r))"
proof (cases "forEachNode (\<lambda>node. node\<lparr>gScore := \<infinity>, fScore := \<infinity>,
        hScore := enat (manhattanDistance node (h e)),
        previousNode := None, isVisited := False\<rparr>) h g")
  case (Inl a)
  with assms show ?thesis by (simp add: astar_def)
next
  case (Inr h1)
  with assms that[OF Inr] show ?thesis by (simp add: astar_def del: fun_upd_apply)
qed

subsection \<open>Fields that no assignment touches\<close>

lemma sameCell_refl [simp]: "sameCell a a"
  by (simp add: sameCell_def)

lemma sameCell_trans: "sameCell a b \<Longrightarrow> sameCell b c \<Longrightarrow> sameCell a c"
  by (simp add: sameCell_def)

lemma sameCell_upd:
  "sameCell v (h n) \<Longrightarrow> sameCell ((h(n := v)) x) (h x)"
  by simp

lemma forEachNode_sameCell:
  assumes f: "\<And>n. sameCell (f n) n" and r: "forEachNode f h g = Inr h'"
  shows "sameCell (h' x) (h x)"
proof -
  have "sameCell (foldl (\<lambda>h' p. h'(cell g p := f (h' (cell g p)))) h ps x) (h x)" for ps
  proof (induction ps arbitrary: h)
    case Nil
    show ?case by simp
  next
    case (Cons p ps)
    have "sameCell ((h(cell g p := f (h (cell g p)))) x) (h x)"
      by (rule sameCell_upd) (rule f)
    with Cons[of "h(cell g p := f (h (cell g p)))"] show ?case
      by (simp del: fun_upd_apply) (erule sameCell_trans)
  qed
  with r show ?thesis by (auto simp: forEachNode_def split: if_splits)
qed

lemma bfs_enqueue_sameCell:
  "bfs_enqueue c (h, q) n = (h', q') \<Longrightarrow> sameCell (h' x) (h x)"
  by (auto simp: sameCell_def split: if_splits)

lemma bfs_enqueue_all_sameCell:
  "foldl (bfs_enqueue c) (h, q) ns = (h', q') \<Longrightarrow> sameCell (h' x) (h x)"
proof (induction ns arbitrary: h q)
  case Nil
  then show ?case by simp
next
  case (Cons n ns)
  obtain h1 q1 where s: "bfs_enqueue c (h, q) n = (h1, q1)" by (cases "bfs_enqueue c (h, q) n")
  with Cons.prems have "foldl (bfs_enqueue c) (h1, q1) ns = (h', q')" by simp
  from Cons.IH[OF this] bfs_enqueue_sameCell[OF s, of x] show ?case by (rule sameCell_trans)
qed

lemma updateNeighbor_sameCell:
  "updateNeighbor c (h, q) n = (h', q') \<Longrightarrow> sameCell (h' x) (h x)"
  by (auto simp: sameCell_def Let_def split: if_splits)

lemma updateNeighbor_all_sameCell:
  "foldl (updateNeighbor c) (h, q) ns = (h', q') \<Longrightarrow> sameCell (h' x) (h x)"
proof (induction ns arbitrary: h q)
  case Nil
  then show ?case by simp
next
  case (Cons n ns)
  obtain h1 q1 where s: "updateNeighbor c (h, q) n = (h1, q1)" by (cases "updateNeighbor c (h, q) n")
  with Cons.prems have "foldl (updateNeighbor c) (h1, q1) ns = (h', q')" by simp
  from Cons.IH[OF this] updateNeighbor_sameCell[OF s, of x] show ?case by (rule sameCell_trans)
qed

lemma astar_updateNeighbor_sameCell:
  "astar_updateNeighbor c cl (h, q) n = (h', q') \<Longrightarrow> sameCell (h' x) (h x)"
  by (auto simp: sameCell_def Let_def split: if_splits)

lemma astar_updateNeighbor_all_sameCell:
  "foldl (astar_updateNeighbor c cl) (h, q) ns = (h', q') \<Longrightarrow> sameCell (h' x) (h x)"
proof (induction ns arbitrary: h q)
  case Nil
  then show ?case by simp
next
  case (Cons n ns)
  obtain h1 q1 where s: "astar_updateNeighbor c cl (h, q) n = (h1, q1)"
    by (cases "astar_updateNeighbor c cl (h, q) n")
  with Cons.prems have "foldl (astar_updateNeighbor c cl) (h1, q1) ns = (h', q')" by simp
  from Cons.IH[OF this] astar_updateNeighbor_sameCell[OF s, of x] show ?case by (rule sameCell_trans)
qed

lemma sameCell_mark: "sameCell ((h(c := (h c)\<lparr>isVisited := b\<rparr>)) x) (h x)"
  by (simp add: sameCell_def)

lemma bfs_sameCell:
  assumes "bfs h g s e = Some (Inr (h', r))"
  shows "sameCell (h' x) (h x)"
proof -
  from assms obtain h1 where i: "forEachNode (\<lambda>node. node\<lparr>previousNode := None, isVisited := False\<rparr>) h g = Inr h1"
    and l: "bfs_loop g e (h1(s := (h1 s)\<lparr>isVisited := True\<rparr>), [s], []) = Some (Inr (h', r))"
    by (rule bfs_unfold)
  let ?I = "\<lambda>st. sameCell (fst st x) (h x)"
  have h1: "sameCell (h1 x) (h x)"
    by (rule forEachNode_sameCell[OF _ i]) (simp add: sameCell_def)
  have "\<exists>st. ?I st \<and> bfs_step g e st = Inr (Some (Inr (h', r)))"
  proof (rule bfs_loop_run[OF l])
    show "?I (h1(s := (h1 s)\<lparr>isVisited := True\<rparr>), [s], [])"
      using sameCell_trans[OF sameCell_mark[of h1 s True x] h1] by simp
  next
    fix st st' assume I: "?I st" and s: "bfs_step g e st = Inl st'"
    obtain h2 q vs where st: "st = (h2, q, vs)" by (cases st)
    obtain h3 q' vs' where st': "st' = (h3, q', vs')" by (cases st')
    from bfs_step_InlD[OF s[unfolded st st']] obtain c rest ns where
      "foldl (bfs_enqueue c) (h2, rest) ns = (h3, q')" by blast
    from sameCell_trans[OF bfs_enqueue_all_sameCell[OF this, of x]] I show "?I st'"
      unfolding st st' by simp
  qed
  then obtain h2 q vs where "sameCell (h2 x) (h x)" "bfs_step g e (h2, q, vs) = Inr (Some (Inr (h', r)))"
    by auto
  with bfs_step_InrD[OF this(2)] show ?thesis by simp
qed

lemma dijkstra_sameCell:
  assumes "dijkstra h g s e = Some (Inr (h', r))"
  shows "sameCell (h' x) (h x)"
proof -
  from assms obtain h1 where
    i: "forEachNode (\<lambda>node. node\<lparr>distance := \<infinity>, previousNode := None, isVisited := False\<rparr>) h g = Inr h1"
    and l: "dijkstra_loop g e (h1(s := (h1 s)\<lparr>distance := 0\<rparr>), [s], []) = Some (Inr (h', r))"
    by (rule dijkstra_unfold)
  let ?I = "\<lambda>st. sameCell (fst st x) (h x)"
  have h1: "sameCell (h1 x) (h x)"
    by (rule forEachNode_sameCell[OF _ i]) (simp add: sameCell_def)
  have "\<exists>st. ?I st \<and> dijkstra_step g e st = Inr (Some (Inr (h', r)))"
  proof (rule dijkstra_loop_run[OF l])
    have "sameCell ((h1(s := (h1 s)\<lparr>distance := 0\<rparr>)) x) (h1 x)" by (simp add: sameCell_def)
    from sameCell_trans[OF this h1]
    show "?I (h1(s := (h1 s)\<lparr>distance := 0\<rparr>), [s], [])" by simp
  next
    fix st st' assume I: "?I st" and s: "dijkstra_step g e st = Inl st'"
    obtain h2 q vs where st: "st = (h2, q, vs)" by (cases st)
    from dijkstra_step_InlD[OF s[unfolded st]] obtain c rest where
      d: "st' = (h2, rest, vs) \<or>
         (\<exists>ns h' q'. foldl (updateNeighbor c) (h2(c := (h2 c)\<lparr>isVisited := True\<rparr>), rest) ns = (h', q') \<and>
            st' = (h', q', vs @ [c]))" by blast
    show "?I st'"
    proof (rule disjE[OF d])
      assume "st' = (h2, rest, vs)"
      with I st show ?thesis by simp
    next
      assume "\<exists>ns h' q'. foldl (updateNeighbor c) (h2(c := (h2 c)\<lparr>isVisited := True\<rparr>), rest) ns = (h', q') \<and>
            st' = (h', q', vs @ [c])"
      then obtain ns h3 q' where f: "foldl (updateNeighbor c) (h2(c := (h2 c)\<lparr>isVisited := True\<rparr>), rest) ns = (h3, q')"
        and st': "st' = (h3, q', vs @ [c])" by blast
      from sameCell_trans[OF updateNeighbor_all_sameCell[OF f, of x] sameCell_mark[of h2 c True x]]
      have "sameCell (h3 x) (h2 x)" .
      from sameCell_trans[OF this] I show ?thesis unfolding st st' by simp
    qed
  qed
  then obtain h2 q vs where I: "sameCell (h2 x) (h x)"
    and f: "dijkstra_step g e (h2, q, vs) = Inr (Some (Inr (h', r)))"
    by auto
  from dijkstra_step_InrD[OF f] have "h' = h2 \<or> (\<exists>c. h' = h2(c := (h2 c)\<lparr>isVisited := True\<rparr>))"
    by blast
  then show ?thesis
  proof
    assume "h' = h2" with I show ?thesis by simp
  next
    assume "\<exists>c. h' = h2(c := (h2 c)\<lparr>isVisited := True\<rparr>)"
    then obtain c where "h' = h2(c := (h2 c)\<lparr>isVisited := True\<rparr>)" ..
    with sameCell_trans[OF sameCell_mark[of h2 c True x] I] show ?thesis by simp
  qed
qed

lemma astar_sameCell:
  assumes "astar h g s e = Some (Inr (h', r))"
  shows "sameCell (h' x) (h x)"
proof -
  from assms obtain h1 where
    i: "forEachNode (\<lambda>node. node\<lparr>gScore := \<infinity>, fScore := \<infinity>,
        hScore := enat (manhattanDistance node (h e)),
        previousNode := None, isVisited := False\<rparr>) h g = Inr h1"
    and l: "astar_loop g e (h1(s := (h1 s)\<lparr>gScore := 0, fScore := hScore (h1 s)\<rparr>), [s], {}, []) = Some (Inr (h', r))"
    by (rule astar_unfold)
  let ?I = "\<lambda>st. sameCell (fst st x) (h x)"
  have h1: "sameCell (h1 x) (h x)"
    by (rule forEachNode_sameCell[OF _ i]) (simp add: sameCell_def)
  have "\<exists>st. ?I st \<and> astar_step g e st = Inr (Some (Inr (h', r)))"
  proof (rule astar_loop_run[OF l])
    have "sameCell ((h1(s := (h1 s)\<lparr>gScore := 0, fScore := hScore (h1 s)\<rparr>)) x) (h1 x)"
      by (simp add: sameCell_def)
    from sameCell_trans[OF this h1]
    show "?I (h1(s := (h1 s)\<lparr>gScore := 0, fScore := hScore (h1 s)\<rparr>), [s], {}, [])" by simp
  next
    fix st st' assume I: "?I st" and s: "astar_step g e st = Inl st'"
    obtain h2 q cl vs where st: "st = (h2, q, cl, vs)" by (cases st)
    from astar_step_InlD[OF s[unfolded st]] obtain c rest where
      d: "st' = (h2, rest, cl, vs) \<or>
         (\<exists>ns h' q'. foldl (astar_updateNeighbor c (insert c cl)) (h2(c := (h2 c)\<lparr>isVisited := True\<rparr>), rest) ns = (h', q') \<and>
            st' = (h', q', insert c cl, vs @ [c]))" by blast
    show "?I st'"
    proof (rule disjE[OF d])
      assume "st' = (h2, rest, cl, vs)"
      with I st show ?thesis by simp
    next
      assume "\<exists>ns h' q'. foldl (astar_updateNeighbor c (insert c cl)) (h2(c := (h2 c)\<lparr>isVisited := True\<rparr>), rest) ns = (h', q') \<and>
            st' = (h', q', insert c cl, vs @ [c])"
      then obtain ns h3 q' where
        f: "foldl (astar_updateNeighbor c (insert c cl)) (h2(c := (h2 c)\<lparr>isVisited := True\<rparr>), rest) ns = (h3, q')"
        and st': "st' = (h3, q', insert c cl, vs @ [c])" by blast
      from sameCell_trans[OF astar_updateNeighbor_all_sameCell[OF f, of x] sameCell_mark[of h2 c True x]]
      have "sameCell (h3 x) (h2 x)" .
      from sameCell_trans[OF this] I show ?thesis unfolding st st' by simp
    qed
  qed
  then obtain h2 q cl vs where I: "sameCell (h2 x) (h x)"
    and f: "astar_step g e (h2, q, cl, vs) = Inr (Some (Inr (h', r)))"
    by auto
  from astar_step_InrD[OF f] have "h' = h2 \<or> (\<exists>c. h' = h2(c := (h2 c)\<lparr>isVisited := True\<rparr>))"
    by blast
  then show ?thesis
  proof
    assume "h' = h2" with I show ?thesis by simp
  next
    assume "\<exists>c. h' = h2(c := (h2 c)\<lparr>isVisited := True\<rparr>)"
    then obtain c where "h' = h2(c := (h2 c)\<lparr>isVisited := True\<rparr>)" ..
    with sameCell_trans[OF sameCell_mark[of h2 c True x] I] show ?thesis by simp
  qed
qed

subsection \<open>No node is recorded twice\<close>

lemma bfs_enqueue_distinct:
  assumes "bfs_enqueue c (h, q) n = (h', q')"
    and "distinct (vs @ q)" "\<forall>x \<in> set vs \<union> set q. isVisited (h x)"
  shows "distinct (vs @ q') \<and> (\<forall>x \<in> set vs \<union> set q'. isVisited (h' x))"
proof (cases "type (h n) \<noteq> Wall \<and> \<not> isVisited (h n)")
  case False
  with assms show ?thesis by auto
next
  case True
  with assms(1) have h': "h' = h(n := (h n)\<lparr>isVisited := True, previousNode := Some c\<rparr>)"
    and q': "q' = q @ [n]" by simp_all
  from True assms(3) have "n \<notin> set vs \<union> set q" by auto
  with assms(2,3) show ?thesis unfolding h' q' by auto
qed

lemma bfs_enqueue_all_distinct:
  assumes "foldl (bfs_enqueue c) (h, q) ns = (h', q')"
    and "distinct (vs @ q)" "\<forall>x \<in> set vs \<union> set q. isVisited (h x)"
  shows "distinct (vs @ q') \<and> (\<forall>x \<in> set vs \<union> set q'. isVisited (h' x))"
  using assms
proof (induction ns arbitrary: h q)
  case Nil
  then show ?case by simp
next
  case (Cons n ns)
  obtain h1 q1 where s: "bfs_enqueue c (h, q) n = (h1, q1)" by (cases "bfs_enqueue c (h, q) n")
  from bfs_enqueue_distinct[OF s Cons.prems(2,3)]
  have d: "distinct (vs @ q1)" "\<forall>x \<in> set vs \<union> set q1. isVisited (h1 x)" by blast+
  from Cons.prems(1) s have "foldl (bfs_enqueue c) (h1, q1) ns = (h', q')" by simp
  from Cons.IH[OF this d] show ?case .
qed

lemma bfs_distinct:
  assumes "bfs h g s e = Some (Inr (h', r))"
  shows "distinct (visitedNodes r)"
proof -
  from assms obtain h1 where
    l: "bfs_loop g e (h1(s := (h1 s)\<lparr>isVisited := True\<rparr>), [s], []) = Some (Inr (h', r))"
    by (rule bfs_unfold)
  let ?I = "\<lambda>st. case st of (h, q, vs) \<Rightarrow>
     distinct (vs @ q) \<and> (\<forall>x \<in> set vs \<union> set q. isVisited (h x))"
  have "\<exists>st. ?I st \<and> bfs_step g e st = Inr (Some (Inr (h', r)))"
  proof (rule bfs_loop_run[OF l])
    show "?I (h1(s := (h1 s)\<lparr>isVisited := True\<rparr>), [s], [])" by simp
  next
    fix st st' assume I: "?I st" and s: "bfs_step g e st = Inl st'"
    obtain h2 q vs where st: "st = (h2, q, vs)" by (cases st)
    obtain h3 q' vs' where st': "st' = (h3, q', vs')" by (cases st')
    from bfs_step_InlD[OF s[unfolded st st']] obtain c rest ns where
      q: "q = c # rest" and f: "foldl (bfs_enqueue c) (h2, rest) ns = (h3, q')" and vs': "vs' = vs @ [c]"
      by blast
    from I have "distinct ((vs @ [c]) @ rest)" "\<forall>x \<in> set (vs @ [c]) \<union> set rest. isVisited (h2 x)"
      unfolding st q by auto
    from bfs_enqueue_all_distinct[OF f this] show "?I st'" unfolding st' vs' by simp
  qed
  then obtain h2 q vs where I: "distinct (vs @ q)"
    and f: "bfs_step g e (h2, q, vs) = Inr (Some (Inr (h', r)))"
    by auto
  from bfs_step_InrD[OF f] I show ?thesis by auto
qed

lemma dijkstra_distinct:
  assumes "dijkstra h g s e = Some (Inr (h', r))"
  shows "distinct (visitedNodes r)"
proof -
  from assms obtain h1 where
    l: "dijkstra_loop g e (h1(s := (h1 s)\<lparr>distance := 0\<rparr>), [s], []) = Some (Inr (h', r))"
    by (rule dijkstra_unfold)
  let ?I = "\<lambda>st. case st of (h, q, vs) \<Rightarrow> distinct vs \<and> (\<forall>x \<in> set vs. isVisited (h x))"
  have "\<exists>st. ?I st \<and> dijkstra_step g e st = Inr (Some (Inr (h', r)))"
  proof (rule dijkstra_loop_run[OF l])
    show "?I (h1(s := (h1 s)\<lparr>distance := 0\<rparr>), [s], [])" by simp
  next
    fix st st' assume I: "?I st" and s: "dijkstra_step g e st = Inl st'"
    obtain h2 q vs where st: "st = (h2, q, vs)" by (cases st)
    from dijkstra_step_InlD[OF s[unfolded st]] obtain c rest where
      d: "st' = (h2, rest, vs) \<or>
         \<not> (isVisited (h2 c) \<or> type (h2 c) = Wall) \<and>
         (\<exists>ns h' q'. foldl (updateNeighbor c) (h2(c := (h2 c)\<lparr>isVisited := True\<rparr>), rest) ns = (h', q') \<and>
            st' = (h', q', vs @ [c]))" by blast
    show "?I st'"
    proof (rule disjE[OF d])
      assume "st' = (h2, rest, vs)"
      with I st show ?thesis by simp
    next
      assume a: "\<not> (isVisited (h2 c) \<or> type (h2 c) = Wall) \<and>
         (\<exists>ns h' q'. foldl (updateNeighbor c) (h2(c := (h2 c)\<lparr>isVisited := True\<rparr>), rest) ns = (h', q') \<and>
            st' = (h', q', vs @ [c]))"
      then obtain ns h3 q' where f: "foldl (updateNeighbor c) (h2(c := (h2 c)\<lparr>isVisited := True\<rparr>), rest) ns = (h3, q')"
        and st': "st' = (h3, q', vs @ [c])" by blast
      have v: "isVisited (h3 x) = isVisited ((h2(c := (h2 c)\<lparr>isVisited := True\<rparr>)) x)" for x
        using updateNeighbor_all_frame[OF f, of x] by simp
      from a I have "c \<notin> set vs" unfolding st by auto
      with I show ?thesis unfolding st st' by (auto simp: v)
    qed
  qed
  then obtain h2 q vs where I: "distinct vs" "\<forall>x \<in> set vs. isVisited (h2 x)"
    and f: "dijkstra_step g e (h2, q, vs) = Inr (Some (Inr (h', r)))"
    by auto
  from dijkstra_step_InrD[OF f] I show ?thesis by auto
qed

lemma astar_distinct:
  assumes "astar h g s e = Some (Inr (h', r))"
  shows "distinct (visitedNodes r)"
proof -
  from assms obtain h1 where
    l: "astar_loop g e (h1(s := (h1 s)\<lparr>gScore := 0, fScore := hScore (h1 s)\<rparr>), [s], {}, []) = Some (Inr (h', r))"
    by (rule astar_unfold)
  let ?I = "\<lambda>st. case st of (h, q, cl, vs) \<Rightarrow> distinct vs \<and> set vs \<subseteq> cl"
  have "\<exists>st. ?I st \<and> astar_step g e st = Inr (Some (Inr (h', r)))"
  proof (rule astar_loop_run[OF l])
    show "?I (h1(s := (h1 s)\<lparr>gScore := 0, fScore := hScore (h1 s)\<rparr>), [s], {}, [])" by simp
  next
    fix st st' assume I: "?I st" and s: "astar_step g e st = Inl st'"
    obtain h2 q cl vs where st: "st = (h2, q, cl, vs)" by (cases st)
    from astar_step_InlD[OF s[unfolded st]] obtain c rest where
      d: "st' = (h2, rest, cl, vs) \<or>
         \<not> (c \<in> cl \<or> type (h2 c) = Wall) \<and>
         (\<exists>ns h' q'. st' = (h', q', insert c cl, vs @ [c]))" by blast
    show "?I st'"
    proof (rule disjE[OF d])
      assume "st' = (h2, rest, cl, vs)"
      with I st show ?thesis by simp
    next
      assume a: "\<not> (c \<in> cl \<or> type (h2 c) = Wall) \<and>
         (\<exists>ns h' q'. st' = (h', q', insert c cl, vs @ [c]))"
      then obtain h3 q' where st': "st' = (h3, q', insert c cl, vs @ [c])" by blast
      from a I have "c \<notin> set vs" unfolding st by auto
      with I show ?thesis unfolding st st' by auto
    qed
  qed
  then obtain h2 q cl vs where I: "distinct vs" "set vs \<subseteq> cl"
    and f: "astar_step g e (h2, q, cl, vs) = Inr (Some (Inr (h', r)))"
    by auto
  from astar_step_InrD[OF f] I show ?thesis by auto
qed

subsection \<open>Neighbours and predecessor chains\<close>

lemma rectangular_row:
  "rectangular g \<Longrightarrow> r < length g \<Longrightarrow> length (g ! r) = length (g ! 0)"
  unfolding rectangular_def list_all_length by blast

lemma rectangular_inGrid:
  assumes "rectangular g"
  shows "inGrid g (r, c) \<longleftrightarrow> r < length g \<and> c < length (g ! 0)"
  using rectangular_row[OF assms, of r] unfolding inGrid_def fst_conv snd_conv by metis

lemma inBoundsNeighbours_parts:
  assumes "r < rows" "c < cols"
  shows "inBoundsNeighbours rows cols (r, c) =
     (if r > 0 then [(r - 1, c)] else []) @
     (if r < rows - 1 then [(r + 1, c)] else []) @
     (if c > 0 then [(r, c - 1)] else []) @
     (if c < cols - 1 then [(r, c + 1)] else [])"
proof -
  let ?P = "\<lambda>(i, j). 0 \<le> i \<and> i < int rows \<and> 0 \<le> j \<and> j < int cols"
  let ?f = "\<lambda>(i, j). (nat i, nat j)"
  have up: "map ?f (filter ?P [(int r - 1, int c)]) = (if r > 0 then [(r - 1, c)] else [])"
    using assms by (simp add: nat_diff_distrib)
  have down: "map ?f (filter ?P [(int r + 1, int c)]) = (if r < rows - 1 then [(r + 1, c)] else [])"
    using assms by (simp add: nat_add_distrib) linarith
  have left: "map ?f (filter ?P [(int r, int c - 1)]) = (if c > 0 then [(r, c - 1)] else [])"
    using assms by (simp add: nat_diff_distrib)
  have right: "map ?f (filter ?P [(int r, int c + 1)]) = (if c < cols - 1 then [(r, c + 1)] else [])"
    using assms by (simp add: nat_add_distrib) linarith
  have "inBoundsNeighbours rows cols (r, c) =
      map ?f (filter ?P ([(int r - 1, int c)] @ [(int r + 1, int c)] @ [(int r, int c - 1)] @ [(int r, int c + 1)]))"
    by (simp only: inBoundsNeighbours_def append_Cons append_Nil fst_conv snd_conv)
  also have "\<dots> = map ?f (filter ?P [(int r - 1, int c)]) @ map ?f (filter ?P [(int r + 1, int c)]) @
      map ?f (filter ?P [(int r, int c - 1)]) @ map ?f (filter ?P [(int r, int c + 1)])"
    unfolding filter_append map_append ..
  finally show ?thesis unfolding up down left right .
qed

lemma neighborCoords_spec:
  assumes "row node < length g" "col node < length (g ! 0)"
  shows "neighborCoords g node = inBoundsNeighbours (length g) (length (g ! 0)) (row node, col node)"
  unfolding inBoundsNeighbours_parts[OF assms] neighborCoords_def ..

lemma inBoundsNeighbours_inGrid:
  assumes "rectangular g" "p \<in> set (inBoundsNeighbours (length g) (length (g ! 0)) q)"
  shows "inGrid g p"
proof -
  let ?P = "\<lambda>(i, j). 0 \<le> i \<and> i < int (length g) \<and> 0 \<le> j \<and> j < int (length (g ! 0))"
  from assms(2) obtain x where "?P x" "p = (\<lambda>(i, j). (nat i, nat j)) x"
    unfolding inBoundsNeighbours_def set_map set_filter by blast
  then have "fst p < length g \<and> snd p < length (g ! 0)"
    by (cases x) auto
  with rectangular_inGrid[OF assms(1), of "fst p" "snd p"] show ?thesis by simp
qed

lemma getUnvisitedNeighbors_spec:
  assumes "rectangular g" "row node < length g" "col node < length (g ! 0)"
  shows "getUnvisitedNeighbors g node =
         Inr (map (cell g) (inBoundsNeighbours (length g) (length (g ! 0)) (row node, col node)))"
proof -
  from assms(1) have "g \<noteq> []" by (simp add: rectangular_def)
  moreover have "\<forall>p \<in> set (neighborCoords g node). inGrid g p"
    unfolding neighborCoords_spec[OF assms(2,3)] using inBoundsNeighbours_inGrid[OF assms(1)] by blast
  ultimately show ?thesis
    unfolding getUnvisitedNeighbors_def neighborCoords_spec[OF assms(2,3), symmetric] by simp
qed

lemma backward_unshiftChain:
  "backward h n xs \<Longrightarrow> unshiftChain h (Some n) acc = Some (rev xs @ acc)"
proof (induction arbitrary: acc rule: backward.induct)
  case (root h n)
  then show ?case by (simp add: unshiftChain.simps[of h "Some n"] unshiftChain.simps[of h None])
next
  case (link h n m xs)
  from link.IH[of "n # acc"] link.hyps(1) show ?case
    by (simp add: unshiftChain.simps[of h "Some n"])
qed

lemma unshiftChain_backward:
  assumes "unshiftChain h cur acc = Some p"
  shows "case cur of None \<Rightarrow> p = acc | Some n \<Rightarrow> (\<exists>xs. backward h n xs \<and> p = rev xs @ acc)"
proof (rule unshiftChain.raw_induct[where P = "\<lambda>h cur acc p.
          case cur of None \<Rightarrow> p = acc | Some n \<Rightarrow> (\<exists>xs. backward h n xs \<and> p = rev xs @ acc)",
        OF _ assms])
  fix f :: "heap \<Rightarrow> ref option \<Rightarrow> ref list \<Rightarrow> ref list option" and h cur acc p
  assume IH: "\<And>h cur acc y. f h cur acc = Some y \<Longrightarrow>
      (case cur of None \<Rightarrow> y = acc | Some n \<Rightarrow> (\<exists>xs. backward h n xs \<and> y = rev xs @ acc))"
    and body: "(case cur of None \<Rightarrow> Some acc | Some n \<Rightarrow> f h (previousNode (h n)) (n # acc)) = Some p"
  show "case cur of None \<Rightarrow> p = acc | Some n \<Rightarrow> (\<exists>xs. backward h n xs \<and> p = rev xs @ acc)"
  proof (cases cur)
    case None
    with body show ?thesis by simp
  next
    case (Some n)
    with body have u: "f h (previousNode (h n)) (n # acc) = Some p" by simp
    show ?thesis
    proof (cases "previousNode (h n)")
      case None
      from IH[OF u] None have "p = n # acc" by simp
      with backward.root[of h n, OF None] Some show ?thesis by auto
    next
      case (Some m)
      from IH[OF u] Some obtain xs where xs: "backward h m xs" "p = rev xs @ n # acc" by auto
      from backward.link[of h n m xs, OF Some xs(1)] xs(2) \<open>cur = Some n\<close> show ?thesis by auto
    qed
  qed
qed

lemma backward_unique: "backward h n xs \<Longrightarrow> backward h n ys \<Longrightarrow> xs = ys"
proof (induction arbitrary: ys rule: backward.induct)
  case (root h n)
  from root(2) root(1) show ?case by (cases rule: backward.cases) auto
next
  case (link h n m xs)
  from link(4) link(1) link(3) show ?case by (cases rule: backward.cases) auto
qed

lemma backward_nonempty: "backward h n xs \<Longrightarrow> xs \<noteq> []"
  by (induction rule: backward.induct) auto

lemma unshiftChain_iff:
  "unshiftChain h (Some n) [] = Some p \<longleftrightarrow> backward h n (rev p)"
proof
  assume "unshiftChain h (Some n) [] = Some p"
  from unshiftChain_backward[OF this] show "backward h n (rev p)" by auto
next
  assume "backward h n (rev p)"
  from backward_unshiftChain[OF this, of "[]"] show "unshiftChain h (Some n) [] = Some p" by simp
qed


subsection \<open>The order of the frontier\<close>

lemma dijkstra_from_start:
  "dijkstra h g s e = (case dijkstra_start h g s of Inl err \<Rightarrow> Some (Inl err) | Inr st \<Rightarrow> dijkstra_loop g e st)"
  by (simp add: dijkstra_def dijkstra_start_def split: sum.splits)

lemma astar_from_start:
  "astar h g s e = (case astar_start h g s e of Inl err \<Rightarrow> Some (Inl err) | Inr st \<Rightarrow> astar_loop g e st)"
  by (simp add: astar_def astar_start_def split: sum.splits)

lemma dijkstra_loop_afterIterations:
  "afterIterations n (dijkstra_step g e) st = Some st' \<Longrightarrow> dijkstra_loop g e st = dijkstra_loop g e st'"
proof (induction n arbitrary: st)
  case 0
  then show ?case by simp
next
  case (Suc n)
  then obtain st1 where s: "dijkstra_step g e st = Inl st1" and r: "afterIterations n (dijkstra_step g e) st1 = Some st'"
    by (auto split: sum.splits)
  from Suc.IH[OF r] s show ?case by (subst dijkstra_loop.simps) simp
qed

lemma astar_loop_afterIterations:
  "afterIterations n (astar_step g e) st = Some st' \<Longrightarrow> astar_loop g e st = astar_loop g e st'"
proof (induction n arbitrary: st)
  case 0
  then show ?case by simp
next
  case (Suc n)
  then obtain st1 where s: "astar_step g e st = Inl st1" and r: "afterIterations n (astar_step g e) st1 = Some st'"
    by (auto split: sum.splits)
  from Suc.IH[OF r] s show ?case by (subst astar_loop.simps) simp
qed

















section \<open>Evaluating the algorithms on concrete stores\<close>

lemma heapOf_apply: "i < length ns \<Longrightarrow> heapOf ns i = ns ! i"
  by (simp add: heapOf_def)

lemma heapOf_upd: "i < length ns \<Longrightarrow> (heapOf ns)(i := v) = heapOf (ns[i := v])"
  by (auto simp: heapOf_def fun_eq_iff)

lemma heapOf_alloc: "i = length ns \<Longrightarrow> (heapOf ns)(i := v) = heapOf (ns @ [v])"
  by (auto simp: heapOf_def fun_eq_iff nth_append)

lemma list_update_numeral: "(x # xs)[numeral k := y] = x # xs[pred_numeral k := y]"
  by (simp add: numeral_eq_Suc)


lemma ex_enat_numeral [simp]: "\<exists>i. enat i = numeral k" "\<exists>i. enat i = 1" "\<exists>i. enat i = 0"
  by (metis numeral_eq_enat, metis one_enat_def, metis zero_enat_def)

lemma enat_Suc0: "enat (Suc 0) = 1"
  by (simp add: one_enat_def)

lemmas eval_simps = heapOf_apply heapOf_upd list_update_numeral createNode_def
  forEachNode_def initCoords_def inGrid_def cell_def
  getUnvisitedNeighbors_def getValidNeighbors_def neighborCoords_def
  bfs_reconstructPath_def dijkstra_reconstructPath_def astar_reconstructPath_def unshiftChain.simps
  upt_rec[of 0] upt_rec[of "Suc _"] upt_rec[of "numeral _"] manhattanDistance_def Let_def
  enat_numeral enat_0 enat_1 enat_Suc0

lemmas bfs_eval = bfs_def bfs_loop.simps eval_simps

lemmas dijkstra_eval = dijkstra_def dijkstra_loop.simps dijkstra_step_def
  updateUnvisitedNeighbors_def eval_simps

lemmas astar_eval = astar_def astar_loop.simps astar_step_def eval_simps


section \<open>The claims\<close>

subsection \<open>C4: neighbour enumeration\<close>

text \<open>
  C4. For every node of every grid, the neighbour enumeration used by the algorithms returns
  exactly the in-bounds 4-directional neighbours in the fixed order up, down, left, right;
  and when restricted to unvisited nodes, nodes already marked visited are excluded from the
  returned list.

  \<^verbatim>\<open>getUnvisitedNeighbors\<close> (bfs.ts) returns the grid's nodes at \<open>inBoundsNeighbours\<close> of the
  node's position, in that order; \<^verbatim>\<open>getValidNeighbors\<close> (dijkstra.ts, astar.ts) returns the
  same list without the nodes whose \<^verbatim>\<open>isVisited\<close> flag is set. A node of the grid is one
  whose coordinates are inside the grid.
\<close>

theorem neighbours_in_order:
  assumes "rectangular g" "row node < length g" "col node < length (g ! 0)"
  shows "getUnvisitedNeighbors g node =
           Inr (map (cell g) (inBoundsNeighbours (length g) (length (g ! 0)) (row node, col node)))
       \<and> getValidNeighbors h g node =
           Inr (filter (\<lambda>n. \<not> isVisited (h n))
                  (map (cell g) (inBoundsNeighbours (length g) (length (g ! 0)) (row node, col node))))"
  using getUnvisitedNeighbors_spec[OF assms] by (simp add: getValidNeighbors_def)

theorem neighbours_in_order_witness:
  "rectangular [[0, 1, 2], [3, 4, 5], [6, 7, 8]] \<and>
   getUnvisitedNeighbors [[0, 1, 2], [3, 4, 5], [6, 7, 8]] (createNode 1 1 Empty) = Inr [1, 7, 3, 5] \<and>
   getValidNeighbors (heapOf (map (\<lambda>i. (createNode (i div 3) (i mod 3) Empty)\<lparr>isVisited := (i = 7)\<rparr>) [0..<9]))
     [[0, 1, 2], [3, 4, 5], [6, 7, 8]] (createNode 1 1 Empty) = Inr [1, 3, 5] \<and>
   getUnvisitedNeighbors [[0, 1, 2], [3, 4, 5], [6, 7, 8]] (createNode 0 2 Empty) = Inr [5, 1]"
  using neighbours_in_order[of "[[0, 1, 2], [3, 4, 5], [6, 7, 8]]" "createNode 1 1 Empty"
      "heapOf (map (\<lambda>i. (createNode (i div 3) (i mod 3) Empty)\<lparr>isVisited := (i = 7)\<rparr>) [0..<9])"]
    neighbours_in_order[of "[[0, 1, 2], [3, 4, 5], [6, 7, 8]]" "createNode 0 2 Empty" "heapOf []"]
  by (simp add: rectangular_def inBoundsNeighbours_def createNode_def cell_def heapOf_def)


subsection \<open>C1: path reconstruction\<close>

text \<open>
  C1, as stated, fails for breadth-first search: \<^verbatim>\<open>reconstructPath\<close> in bfs.ts returns the
  chain without looking at any cost, and bfs.ts never assigns \<^verbatim>\<open>distance\<close>. On the grid of
  one row with the start at column 0 and the end at column 1, the path \<open>[start, end]\<close> is
  returned although the accumulated cost stored in its first node is \<open>\<infinity>\<close>, not \<open>0\<close>.
\<close>

theorem bfs_path_returned_unvalidated:
  "bfs (heapOf [createNode 0 0 Start, createNode 0 1 End]) [[0, 1]] 0 1 =
     Some (Inr (heapOf [(createNode 0 0 Start)\<lparr>isVisited := True\<rparr>,
                        (createNode 0 1 End)\<lparr>isVisited := True, previousNode := Some 0\<rparr>],
                \<lparr>visitedNodes = [0, 1], path = [0, 1]\<rparr>))
   \<and> distance (heapOf [(createNode 0 0 Start)\<lparr>isVisited := True\<rparr>,
                        (createNode 0 1 End)\<lparr>isVisited := True, previousNode := Some 0\<rparr>] 0) = \<infinity>"
  by (simp add: bfs_eval)

text \<open>
  C1, amended. In Dijkstra and in A*, path reconstruction starts at the goal node, follows
  predecessor links backward until a node with no predecessor, reverses the collected
  sequence, and returns it if its first node has zero accumulated cost (\<^verbatim>\<open>distance\<close> for
  Dijkstra, \<^verbatim>\<open>gScore\<close> for A*) and the empty path otherwise. In breadth-first search the
  reversed sequence is returned without validation. (In each case the call returns exactly
  when the chain of predecessors ends.)
\<close>

theorem reconstructPath_spec:
  "(bfs_reconstructPath h goal = Some p \<longleftrightarrow> backward h goal (rev p)) \<and>
   (dijkstra_reconstructPath h goal = Some p \<longleftrightarrow>
      (\<exists>xs. backward h goal xs \<and> p = (if distance (h (last xs)) = 0 then rev xs else []))) \<and>
   (astar_reconstructPath h goal = Some p \<longleftrightarrow>
      (\<exists>xs. backward h goal xs \<and> p = (if gScore (h (last xs)) = 0 then rev xs else [])))"
proof (intro conjI)
  show "bfs_reconstructPath h goal = Some p \<longleftrightarrow> backward h goal (rev p)"
    by (simp add: bfs_reconstructPath_def unshiftChain_iff)
next
  have *: "(map_option (\<lambda>c. if 0 < length c \<and> P (hd c) then c else []) (unshiftChain h (Some goal) []) = Some p)
       \<longleftrightarrow> (\<exists>xs. backward h goal xs \<and> p = (if P (last xs) then rev xs else []))" for P
  proof
    assume "map_option (\<lambda>c. if 0 < length c \<and> P (hd c) then c else []) (unshiftChain h (Some goal) []) = Some p"
    then obtain c where c: "unshiftChain h (Some goal) [] = Some c"
      and p: "p = (if 0 < length c \<and> P (hd c) then c else [])" by auto
    from c have b: "backward h goal (rev c)" by (simp add: unshiftChain_iff)
    from backward_nonempty[OF b] have "c \<noteq> []" by simp
    then have "hd c = last (rev c)" by (simp add: last_rev)
    with p \<open>c \<noteq> []\<close> b show "\<exists>xs. backward h goal xs \<and> p = (if P (last xs) then rev xs else [])"
      by (intro exI[of _ "rev c"]) simp
  next
    assume "\<exists>xs. backward h goal xs \<and> p = (if P (last xs) then rev xs else [])"
    then obtain xs where b: "backward h goal xs" and p: "p = (if P (last xs) then rev xs else [])" by blast
    from backward_unshiftChain[OF b, of "[]"] have c: "unshiftChain h (Some goal) [] = Some (rev xs)" by simp
    from backward_nonempty[OF b] have "hd (rev xs) = last xs" "rev xs \<noteq> []" by (simp_all add: hd_rev)
    with c p show "map_option (\<lambda>c. if 0 < length c \<and> P (hd c) then c else []) (unshiftChain h (Some goal) []) = Some p"
      by simp
  qed
  show "dijkstra_reconstructPath h goal = Some p \<longleftrightarrow>
      (\<exists>xs. backward h goal xs \<and> p = (if distance (h (last xs)) = 0 then rev xs else []))"
    unfolding dijkstra_reconstructPath_def using *[of "\<lambda>n. distance (h n) = 0"] by simp
  show "astar_reconstructPath h goal = Some p \<longleftrightarrow>
      (\<exists>xs. backward h goal xs \<and> p = (if gScore (h (last xs)) = 0 then rev xs else []))"
    unfolding astar_reconstructPath_def using *[of "\<lambda>n. gScore (h n) = 0"] by simp
qed

theorem reconstructPath_spec_witness:
  "backward (heapOf [(createNode 0 0 Start)\<lparr>distance := 0\<rparr>,
                     (createNode 0 1 End)\<lparr>distance := 1, previousNode := Some 0\<rparr>]) 1 [1, 0] \<and>
   dijkstra_reconstructPath (heapOf [(createNode 0 0 Start)\<lparr>distance := 0\<rparr>,
                     (createNode 0 1 End)\<lparr>distance := 1, previousNode := Some 0\<rparr>]) 1 = Some [0, 1] \<and>
   astar_reconstructPath (heapOf [(createNode 0 0 Start)\<lparr>distance := 0\<rparr>,
                     (createNode 0 1 End)\<lparr>distance := 1, previousNode := Some 0\<rparr>]) 1 = Some [] \<and>
   bfs_reconstructPath (heapOf [(createNode 0 0 Start)\<lparr>distance := 0\<rparr>,
                     (createNode 0 1 End)\<lparr>distance := 1, previousNode := Some 0\<rparr>]) 1 = Some [0, 1]"
proof -
  let ?h = "heapOf [(createNode 0 0 Start)\<lparr>distance := 0\<rparr>,
                    (createNode 0 1 End)\<lparr>distance := 1, previousNode := Some 0\<rparr>]"
  have b: "backward ?h 1 [1, 0]"
    by (rule backward.link[of ?h 1 0], simp add: heapOf_def createNode_def,
        rule backward.root[of ?h 0], simp add: heapOf_def createNode_def)
  have d: "distance (?h (last [1, 0])) = 0" "gScore (?h (last [1, 0])) \<noteq> 0"
    by (simp_all add: heapOf_def createNode_def)
  from reconstructPath_spec[of ?h 1 "[0, 1]"] reconstructPath_spec[of ?h 1 "[]"] b d
  show ?thesis by auto
qed


subsection \<open>C8: what a run writes\<close>

text \<open>
  C8. For every run of every algorithm on a grid, only the scratch fields of the grid's
  nodes (distance, gScore, hScore, fScore, isVisited, previousNode) are mutated; every
  node's type (display tag) and position (row, col) are the same after the run as before
  it.

  In the call the App makes, the start node (object 3) is not a node of the grid it passes
  (objects 0, 1 and 2). \<^verbatim>\<open>bfs\<close> sets its visited flag, and \<^verbatim>\<open>dijkstra\<close> its distance and its
  visited flag: an object outside the grid is written.
\<close>

theorem run_writes_start_object_outside_grid:
  "3 \<notin> set (concat [[0, 1, 2 :: ref]]) \<and>
   (isVisited (firstRunStore 3), distance (firstRunStore 3)) = (False, \<infinity>) \<and>
   map_option (map_sum id (\<lambda>(h', r). isVisited (h' 3))) (bfs firstRunStore [[0, 1, 2]] 3 4) =
     Some (Inr True) \<and>
   map_option (map_sum id (\<lambda>(h', r). (isVisited (h' 3), distance (h' 3))))
     (dijkstra firstRunStore [[0, 1, 2]] 3 4) = Some (Inr (True, 0))"
proof -
  have "(isVisited (firstRunStore 3), distance (firstRunStore 3)) = (False, \<infinity>)"
    by (simp add: firstRunStore_def eval_simps)
  moreover have "map_option (map_sum id (\<lambda>(h', r). isVisited (h' 3))) (bfs firstRunStore [[0, 1, 2]] 3 4) =
     Some (Inr True)"
    by (simp add: firstRunStore_def bfs_eval)
  moreover have "map_option (map_sum id (\<lambda>(h', r). (isVisited (h' 3), distance (h' 3))))
     (dijkstra firstRunStore [[0, 1, 2]] 3 4) = Some (Inr (True, 0))"
    by (simp add: firstRunStore_def dijkstra_eval)
  ultimately show ?thesis by simp
qed

text \<open>
  What does hold of every object of the store, in the grid or not, for the three algorithms
  whose code is among the sources: its display tag and its position are the same after the
  run as before it.
\<close>

lemma run_keeps_type_and_position:
  assumes "kind \<noteq> Dfs" "runAlgorithm dfs kind h g s e = Some (Inr (h', r))"
  shows "type (h' x) = type (h x) \<and> row (h' x) = row (h x) \<and> col (h' x) = col (h x)"
proof -
  have "sameCell (h' x) (h x)"
  proof (cases kind)
    case Dijkstra
    with assms(2) show ?thesis by (simp add: runAlgorithm_def dijkstra_sameCell)
  next
    case Astar
    with assms(2) show ?thesis by (simp add: runAlgorithm_def astar_sameCell)
  next
    case Bfs
    with assms(2) show ?thesis by (simp add: runAlgorithm_def bfs_sameCell)
  next
    case Dfs
    with assms(1) show ?thesis by simp
  qed
  then show ?thesis by (simp add: sameCell_def)
qed

lemma run_keeps_type_and_position_witness:
  "Dijkstra \<noteq> Dfs \<and>
   runAlgorithm (\<lambda>h g s e. None) Dijkstra
     (heapOf [createNode 0 0 Start, createNode 0 1 Empty, createNode 0 2 End]) [[0, 1, 2]] 0 2 =
     Some (Inr (heapOf [(createNode 0 0 Start)\<lparr>distance := 0, isVisited := True\<rparr>,
                        (createNode 0 1 Empty)\<lparr>distance := 1, isVisited := True, previousNode := Some 0\<rparr>,
                        (createNode 0 2 End)\<lparr>distance := 2, isVisited := True, previousNode := Some 1\<rparr>],
                \<lparr>visitedNodes = [0, 1, 2], path = [0, 1, 2]\<rparr>)) \<and>
   type (heapOf [(createNode 0 0 Start)\<lparr>distance := 0, isVisited := True\<rparr>,
                 (createNode 0 1 Empty)\<lparr>distance := 1, isVisited := True, previousNode := Some 0\<rparr>,
                 (createNode 0 2 End)\<lparr>distance := 2, isVisited := True, previousNode := Some 1\<rparr>] 1) = Empty"
proof -
  let ?h = "heapOf [createNode 0 0 Start, createNode 0 1 Empty, createNode 0 2 End]"
  let ?h' = "heapOf [(createNode 0 0 Start)\<lparr>distance := 0, isVisited := True\<rparr>,
                     (createNode 0 1 Empty)\<lparr>distance := 1, isVisited := True, previousNode := Some 0\<rparr>,
                     (createNode 0 2 End)\<lparr>distance := 2, isVisited := True, previousNode := Some 1\<rparr>]"
  have run: "runAlgorithm (\<lambda>h g s e. None) Dijkstra ?h [[0, 1, 2]] 0 2 =
      Some (Inr (?h', \<lparr>visitedNodes = [0, 1, 2], path = [0, 1, 2]\<rparr>))"
    by (simp add: runAlgorithm_def dijkstra_eval)
  have "type (?h 1) = Empty" by (simp add: heapOf_def createNode_def)
  with run_keeps_type_and_position[OF _ run, of 1] run show ?thesis by simp
qed


subsection \<open>C10: no node is visited twice\<close>

text \<open>
  C10. For each of bfs, dijkstra and astar, on every input grid the returned visited sequence
  contains each grid cell at most once: no node is recorded in the visitation order twice.

  In the call the App makes, the start node is not a node of the grid it passes. The search
  records the start node, and later the node of the grid at the start's position, which no
  flag and no closed set tells from an unvisited cell: the cell \<open>(0, 0)\<close> is in the visited
  sequence twice.
\<close>

theorem bfs_visits_start_cell_twice:
  "map_option (map_sum id snd) (bfs firstRunStore [[0, 1, 2]] 3 4) =
     Some (Inr \<lparr>visitedNodes = [3, 1, 0, 2], path = [3, 1, 2]\<rparr>) \<and>
   positions firstRunStore [3, 1, 0, 2] = [(0, 0), (0, 1), (0, 0), (0, 2)]"
  by (simp add: firstRunStore_def positions_def bfs_eval)

text \<open>
  What the visited flag and the closed set do give: no \<^verbatim>\<open>Node\<close> object occurs twice in the
  visited sequence, for every store, grid, start and end.
\<close>

lemma visited_nodes_distinct:
  assumes "kind \<noteq> Dfs" "runAlgorithm dfs kind h g s e = Some (Inr (h', r))"
  shows "distinct (visitedNodes r)"
proof (cases kind)
  case Dijkstra
  with assms(2) show ?thesis by (simp add: runAlgorithm_def dijkstra_distinct)
next
  case Astar
  with assms(2) show ?thesis by (simp add: runAlgorithm_def astar_distinct)
next
  case Bfs
  with assms(2) show ?thesis by (simp add: runAlgorithm_def bfs_distinct)
next
  case Dfs
  with assms(1) show ?thesis by simp
qed

lemma visited_nodes_distinct_witness:
  "Bfs \<noteq> Dfs \<and>
   runAlgorithm (\<lambda>h g s e. None) Bfs
     (heapOf [createNode 0 0 Start, createNode 0 1 Empty, createNode 0 2 End]) [[0, 1, 2]] 0 2 =
     Some (Inr (heapOf [(createNode 0 0 Start)\<lparr>isVisited := True\<rparr>,
                        (createNode 0 1 Empty)\<lparr>isVisited := True, previousNode := Some 0\<rparr>,
                        (createNode 0 2 End)\<lparr>isVisited := True, previousNode := Some 1\<rparr>],
                \<lparr>visitedNodes = [0, 1, 2], path = [0, 1, 2]\<rparr>)) \<and>
   distinct [0 :: ref, 1, 2]"
proof -
  let ?h = "heapOf [createNode 0 0 Start, createNode 0 1 Empty, createNode 0 2 End]"
  let ?h' = "heapOf [(createNode 0 0 Start)\<lparr>isVisited := True\<rparr>,
                     (createNode 0 1 Empty)\<lparr>isVisited := True, previousNode := Some 0\<rparr>,
                     (createNode 0 2 End)\<lparr>isVisited := True, previousNode := Some 1\<rparr>]"
  have run: "runAlgorithm (\<lambda>h g s e. None) Bfs ?h [[0, 1, 2]] 0 2 =
      Some (Inr (?h', \<lparr>visitedNodes = [0, 1, 2], path = [0, 1, 2]\<rparr>))"
    by (simp add: runAlgorithm_def bfs_eval)
  from visited_nodes_distinct[OF _ run] run show ?thesis by simp
qed


subsection \<open>C2: the guard of the run action\<close>

text \<open>
  C2. \<^verbatim>\<open>run(kind, grid, start, end)\<close> rejects the call, without mutating the grid, if start
  or end is unset or if start == end; otherwise it clears the grid's scratch fields and
  dispatches to the matching algorithm, returning its result.

  The guard of \<^verbatim>\<open>visualizeAlgorithm\<close> tests that the start and the end are set (in
  \<^verbatim>\<open>part_003\<close> also that no run is in progress); in neither variant does it compare them. In
  the two states below the start node and the end node are both at \<open>(0, 0)\<close>. The call is
  not refused: the grid is copied (objects 4 and 5, objects 3 and 4), the algorithm is called
  on the copy, and it returns a path of one node.
\<close>

theorem run_accepts_equal_start_and_end:
  "positions (objects startOnEndApp) [2, 3] = [(0, 0), (0, 0)] \<and>
   visualizeAlgorithm (\<lambda>h g s e. None) startOnEndApp =
     Ran (Some ([([[4, 5]], \<lparr>visitedNodes = [2], path = [2]\<rparr>)],
                Inr (heapOf [createNode 0 0 End, createNode 0 1 Empty,
                             (createNode 0 0 Empty)\<lparr>isVisited := True\<rparr>, createNode 0 0 Start,
                             createNode 0 0 End, createNode 0 1 Empty]))) \<and>
   positions (objects startOnEndApp_004) [2, 0] = [(0, 0), (0, 0)] \<and>
   visualizeAlgorithm_004 startOnEndApp_004 =
     Ran (Some ([([[3, 4]], \<lparr>visitedNodes = [2], path = [2]\<rparr>)],
                Inr (heapOf [createNode 0 0 End, createNode 0 1 Empty,
                             (createNode 0 0 Start)\<lparr>distance := 0, isVisited := True\<rparr>,
                             (createNode 0 0 End)\<lparr>hScore := 0\<rparr>,
                             (createNode 0 1 Empty)\<lparr>hScore := 0\<rparr>])))"
proof -
  have copy: "copyGrid resetNode
      (heapOf [createNode 0 0 End, createNode 0 1 Empty, createNode 0 0 Empty, createNode 0 0 Start], 4) [[0, 1]] =
      ((heapOf [createNode 0 0 End, createNode 0 1 Empty, createNode 0 0 Empty, createNode 0 0 Start,
                createNode 0 0 End, createNode 0 1 Empty], 6), [[4, 5]])"
    by (simp add: resetNode_def heapOf_alloc eval_simps)
  have run: "bfs (heapOf [createNode 0 0 End, createNode 0 1 Empty, createNode 0 0 Empty, createNode 0 0 Start,
                createNode 0 0 End, createNode 0 1 Empty]) [[4, 5]] 2 3 =
      Some (Inr (heapOf [createNode 0 0 End, createNode 0 1 Empty,
                        (createNode 0 0 Empty)\<lparr>isVisited := True\<rparr>, createNode 0 0 Start,
                        createNode 0 0 End, createNode 0 1 Empty], \<lparr>visitedNodes = [2], path = [2]\<rparr>))"
    by (simp add: bfs_eval)
  have a: "visualizeAlgorithm (\<lambda>h g s e. None) startOnEndApp =
     Ran (Some ([([[4, 5]], \<lparr>visitedNodes = [2], path = [2]\<rparr>)],
                Inr (heapOf [createNode 0 0 End, createNode 0 1 Empty,
                             (createNode 0 0 Empty)\<lparr>isVisited := True\<rparr>, createNode 0 0 Start,
                             createNode 0 0 End, createNode 0 1 Empty])))"
    by (simp add: visualizeAlgorithm_def startOnEndApp_def copy runAlgorithm_def run
        del: One_nat_def copyGrid.simps copyRow.simps)
  have copy4: "copyGrid resetNode_004
      (heapOf [createNode 0 0 End, createNode 0 1 Empty, createNode 0 0 Start], 3) [[0, 1]] =
      ((heapOf [createNode 0 0 End, createNode 0 1 Empty, createNode 0 0 Start,
                (createNode 0 0 End)\<lparr>hScore := 0\<rparr>, (createNode 0 1 Empty)\<lparr>hScore := 0\<rparr>], 5), [[3, 4]])"
    by (simp add: resetNode_004_def heapOf_alloc eval_simps)
  have run4: "dijkstra (heapOf [createNode 0 0 End, createNode 0 1 Empty, createNode 0 0 Start,
                (createNode 0 0 End)\<lparr>hScore := 0\<rparr>, (createNode 0 1 Empty)\<lparr>hScore := 0\<rparr>]) [[3, 4]] 2 0 =
      Some (Inr (heapOf [createNode 0 0 End, createNode 0 1 Empty,
                         (createNode 0 0 Start)\<lparr>distance := 0, isVisited := True\<rparr>,
                         (createNode 0 0 End)\<lparr>hScore := 0\<rparr>,
                         (createNode 0 1 Empty)\<lparr>hScore := 0\<rparr>], \<lparr>visitedNodes = [2], path = [2]\<rparr>))"
    by (simp add: dijkstra_eval)
  have b: "visualizeAlgorithm_004 startOnEndApp_004 =
     Ran (Some ([([[3, 4]], \<lparr>visitedNodes = [2], path = [2]\<rparr>)],
                Inr (heapOf [createNode 0 0 End, createNode 0 1 Empty,
                             (createNode 0 0 Start)\<lparr>distance := 0, isVisited := True\<rparr>,
                             (createNode 0 0 End)\<lparr>hScore := 0\<rparr>,
                             (createNode 0 1 Empty)\<lparr>hScore := 0\<rparr>])))"
    by (simp add: visualizeAlgorithm_004_def startOnEndApp_004_def copy4 oneCall_def run4
        del: One_nat_def copyGrid.simps copyRow.simps)
  have c: "positions (objects startOnEndApp) [2, 3] = [(0, 0), (0, 0)]"
    by (simp add: startOnEndApp_def positions_def eval_simps)
  have d: "positions (objects startOnEndApp_004) [2, 0] = [(0, 0), (0, 0)]"
    by (simp add: startOnEndApp_004_def positions_def eval_simps)
  from a b c d show ?thesis by blast
qed


subsection \<open>C7: two runs on the same grid\<close>

text \<open>
  C7. Running the same algorithm twice on the same grid with the same start and end yields
  identical visited sequences and identical paths.

  The two runs below are the two calls the App makes when the user runs Dijkstra twice
  without touching the grid: each call gets a fresh copy of the grid (objects 0 to 2, then
  objects 5 to 7, of the same layout) and the same start and end nodes (objects 3 and 4),
  which are not nodes of either copy. The first call marks the start node visited, no
  initialisation loop resets it, and the second call drops it as soon as it is taken from
  the queue: it returns no visited node and no path.
\<close>

theorem dijkstra_second_run_differs:
  "dijkstra firstRunStore [[0, 1, 2]] 3 4 =
     Some (Inr (secondRunStore, \<lparr>visitedNodes = [3, 1, 0, 2], path = [3, 1, 2]\<rparr>)) \<and>
   layout secondRunStore [[5, 6, 7]] = layout firstRunStore [[0, 1, 2]] \<and>
   dijkstra secondRunStore [[5, 6, 7]] 3 4 =
     Some (Inr (secondRunStore, \<lparr>visitedNodes = [], path = []\<rparr>))"
  by (simp add: firstRunStore_def secondRunStore_def layout_def dijkstra_eval)


subsection \<open>C6: nodes visited by A* and by Dijkstra\<close>

text \<open>
  C6. The number of cells A* visits is at most the number Dijkstra visits, on any grid
  where a path exists.

  On the store left by a first run of Dijkstra, with the grid copy and the start and end
  nodes the App passes next, a path exists from the start cell to the end cell; Dijkstra
  returns no visited node, A* returns three.
\<close>

theorem astar_visits_more_than_dijkstra:
  "cellPath secondRunStore [[5, 6, 7]] [(0, 0), (0, 1), (0, 2)] \<and>
   map_option (map_sum id snd) (dijkstra secondRunStore [[5, 6, 7]] 3 4) =
     Some (Inr \<lparr>visitedNodes = [], path = []\<rparr>) \<and>
   map_option (map_sum id snd) (astar secondRunStore [[5, 6, 7]] 3 4) =
     Some (Inr \<lparr>visitedNodes = [3, 6, 7], path = [3, 6, 7]\<rparr>)"
proof -
  have "cellPath secondRunStore [[5, 6, 7]] [(0, 0), (0, 1), (0, 2)]"
    by (simp add: secondRunStore_def openCell_def inGrid_def cell_def eval_simps)
  moreover have "map_option (map_sum id snd) (dijkstra secondRunStore [[5, 6, 7]] 3 4) =
     Some (Inr \<lparr>visitedNodes = [], path = []\<rparr>)"
    by (simp add: secondRunStore_def dijkstra_eval)
  moreover have "map_option (map_sum id snd) (astar secondRunStore [[5, 6, 7]] 3 4) =
     Some (Inr \<lparr>visitedNodes = [3, 6, 7], path = [3, 6, 7]\<rparr>)"
    by (simp add: secondRunStore_def astar_eval)
  ultimately show ?thesis by blast
qed


subsection \<open>C3: the path of breadth-first search\<close>

text \<open>
  C3. BFS terminates the first time the goal is dequeued, and the path it returns is
  shortest in hop count among all 4-directional paths through non-wall cells from start to
  end.

  In \<open>movedStartStore\<close> the start node is at \<open>(0, 1)\<close>, next to the end at \<open>(0, 2)\<close>, so the
  two cells are a path. The start node still has the predecessor link of the earlier run;
  \<^verbatim>\<open>bfs\<close> resets the links of the nodes of the grid it is given, not this one, and
  \<^verbatim>\<open>reconstructPath\<close> follows it: the path returned has three nodes.
\<close>

theorem bfs_path_longer_than_shortest:
  "positions movedStartStore [1, 2] = [(0, 1), (0, 2)] \<and>
   cellPath movedStartStore [[3, 4, 5]] [(0, 1), (0, 2)] \<and>
   map_option (map_sum id (\<lambda>(h, r). length (path r))) (bfs movedStartStore [[3, 4, 5]] 1 2) =
     Some (Inr 3)"
proof -
  have "positions movedStartStore [1, 2] = [(0, 1), (0, 2)]"
    by (simp add: movedStartStore_def positions_def eval_simps)
  moreover have "cellPath movedStartStore [[3, 4, 5]] [(0, 1), (0, 2)]"
    by (simp add: movedStartStore_def openCell_def inGrid_def cell_def eval_simps)
  moreover have "map_option (map_sum id (\<lambda>(h, r). length (path r))) (bfs movedStartStore [[3, 4, 5]] 1 2) =
     Some (Inr 3)"
    by (simp add: movedStartStore_def bfs_eval)
  ultimately show ?thesis by blast
qed


subsection \<open>C9: the ends of the path\<close>

text \<open>
  C9. When a run returns a non-empty path, its first element is the start cell and its last
  element is the end cell.

  On the same store, \<^verbatim>\<open>bfs\<close> from the start node at \<open>(0, 1)\<close> returns a path whose first
  element is object 0, at \<open>(0, 0)\<close>: the node the stale predecessor link of the start node
  leads to.
\<close>

theorem bfs_path_with_stale_prefix:
  "map_option (map_sum id snd) (bfs movedStartStore [[3, 4, 5]] 1 2) =
     Some (Inr \<lparr>visitedNodes = [1, 3, 5], path = [0, 1, 5]\<rparr>) \<and>
   positions movedStartStore [0, 1, 5] = [(0, 0), (0, 1), (0, 2)] \<and>
   positions movedStartStore [1, 2] = [(0, 1), (0, 2)]"
  by (simp add: movedStartStore_def positions_def bfs_eval)


subsection \<open>C5: which frontier entry is taken\<close>




end
